theory Spec2Isabelle
  imports Complex_Main "HOL-Library.Word" "HOL-Library.Monad_Syntax"
begin

section \<open>Floating-point arithmetic\<close>

text \<open>
  The simulation of \<^verbatim>\<open>main.cpp\<close> computes with C++ \<^verbatim>\<open>float\<close>, the IEEE 754 format
  binary32, and in two expressions with \<^verbatim>\<open>double\<close>, binary64. A value of either type is
  a finite real number, an infinity or NaN. Each operation of the source is the exact
  operation on the reals followed by one rounding to the format of its result type: to
  the nearest value of the format, a tie to the one with an even last digit, with
  gradual underflow and with overflow to an infinity. Every operation rounds on its own
  (no fused multiply-add, no excess precision). A zero has no sign: the sign of a zero
  shows only in a division by it, and those are singled out below.
\<close>

datatype fp = Fin real | PInf | NInf | NaN

text \<open>Rounding a real to the nearest integer, a tie to the even one.\<close>

definition rne :: "real \<Rightarrow> int" where
  "rne y =
     (let f = \<lfloor>y\<rfloor>; r = y - of_int f in
      if r < 1 / 2 then f else if 1 / 2 < r then f + 1 else if even f then f else f + 1)"

text \<open>
  The binary exponent of a magnitude \<open>a\<close>: the \<open>k\<close> with \<open>2\<^sup>k \<le> a < 2\<^sup>k\<^sup>+\<^sup>1\<close>, found by halving or
  doubling, and kept between \<open>emin\<close> (where the subnormal values begin) and \<open>emax + 1\<close>.
\<close>

function up :: "int \<Rightarrow> int \<Rightarrow> real \<Rightarrow> int" where
  "up emax k a = (if a < 2 \<or> emax < k then k else up emax (k + 1) (a / 2))"
  by pat_completeness auto
termination
  by (relation "measure (\<lambda>(emax, k, a). nat (emax + 1 - k))") auto

function down :: "int \<Rightarrow> int \<Rightarrow> real \<Rightarrow> int" where
  "down emin k a = (if 1 \<le> a \<or> k \<le> emin then k else down emin (k - 1) (a * 2))"
  by pat_completeness auto
termination
  by (relation "measure (\<lambda>(emin, k, a). nat (k - emin))") auto

declare up.simps [simp del]
declare down.simps [simp del]

definition bexp :: "int \<Rightarrow> int \<Rightarrow> real \<Rightarrow> int" where
  "bexp emin emax a = (if 1 \<le> a then up emax 0 a else down emin 0 a)"

text \<open>
  Rounding to a format with \<open>p\<close> binary digits and exponents from \<open>emin\<close> to \<open>emax\<close>: to a
  multiple of the spacing of the format at the exponent of \<open>x\<close>, and to an infinity when
  the rounded magnitude reaches \<open>2\<^bsup>emax + 1\<^esup>\<close>.
\<close>

definition rgrid :: "nat \<Rightarrow> int \<Rightarrow> int \<Rightarrow> real \<Rightarrow> real" where
  "rgrid p emin emax x =
     (let q = 2 powi (bexp emin emax \<bar>x\<bar> - (int p - 1)) in of_int (rne (x / q)) * q)"

definition fround :: "nat \<Rightarrow> int \<Rightarrow> int \<Rightarrow> real \<Rightarrow> fp" where
  "fround p emin emax x =
     (let v = rgrid p emin emax x in
      if 2 powi (emax + 1) \<le> \<bar>v\<bar> then (if 0 < x then PInf else NInf) else Fin v)"

definition round32 :: "real \<Rightarrow> fp" where
  "round32 = fround 24 (- 126) 127"

definition round64 :: "real \<Rightarrow> fp" where
  "round64 = fround 53 (- 1022) 1023"

text \<open>The operations on values, each for a given rounding of the exact result.\<close>

fun fneg :: "fp \<Rightarrow> fp" where
  "fneg (Fin x) = Fin (- x)"
| "fneg PInf = NInf"
| "fneg NInf = PInf"
| "fneg NaN = NaN"

fun add_r :: "(real \<Rightarrow> fp) \<Rightarrow> fp \<Rightarrow> fp \<Rightarrow> fp" where
  "add_r r (Fin x) (Fin y) = r (x + y)"
| "add_r r NaN b = NaN"
| "add_r r a NaN = NaN"
| "add_r r PInf NInf = NaN"
| "add_r r NInf PInf = NaN"
| "add_r r PInf b = PInf"
| "add_r r NInf b = NInf"
| "add_r r (Fin x) b = b"

fun mul_inf :: "bool \<Rightarrow> fp \<Rightarrow> fp" where
  "mul_inf pos (Fin x) = (if x = 0 then NaN else if (0 < x) = pos then PInf else NInf)"
| "mul_inf pos PInf = (if pos then PInf else NInf)"
| "mul_inf pos NInf = (if pos then NInf else PInf)"
| "mul_inf pos NaN = NaN"

fun mul_r :: "(real \<Rightarrow> fp) \<Rightarrow> fp \<Rightarrow> fp \<Rightarrow> fp" where
  "mul_r r (Fin x) (Fin y) = r (x * y)"
| "mul_r r NaN b = NaN"
| "mul_r r a NaN = NaN"
| "mul_r r PInf b = mul_inf True b"
| "mul_r r NInf b = mul_inf False b"
| "mul_r r a PInf = mul_inf True a"
| "mul_r r a NInf = mul_inf False a"

text \<open>
  The quotient by a divisor that is not zero. A zero has no sign here; the divisions of
  the source by a zero are told apart from the others by \<open>fdiv\<close> below.
\<close>

fun div_r :: "(real \<Rightarrow> fp) \<Rightarrow> fp \<Rightarrow> fp \<Rightarrow> fp" where
  "div_r r (Fin x) (Fin y) = r (x / y)"
| "div_r r NaN b = NaN"
| "div_r r a NaN = NaN"
| "div_r r (Fin x) b = Fin 0"
| "div_r r PInf (Fin y) = (if 0 \<le> y then PInf else NInf)"
| "div_r r NInf (Fin y) = (if 0 \<le> y then NInf else PInf)"
| "div_r r a b = NaN"

fun sqrt_r :: "(real \<Rightarrow> fp) \<Rightarrow> fp \<Rightarrow> fp" where
  "sqrt_r r (Fin x) = (if x < 0 then NaN else r (sqrt x))"
| "sqrt_r r PInf = PInf"
| "sqrt_r r NInf = NaN"
| "sqrt_r r NaN = NaN"

text \<open>The comparison \<^verbatim>\<open><\<close>; \<^verbatim>\<open>a > b\<close> is \<open>flt b a\<close>. A comparison with NaN is false.\<close>

fun flt :: "fp \<Rightarrow> fp \<Rightarrow> bool" where
  "flt (Fin x) (Fin y) = (x < y)"
| "flt NaN b = False"
| "flt a NaN = False"
| "flt PInf b = False"
| "flt a NInf = False"
| "flt NInf b = True"
| "flt a PInf = True"

definition fadd :: "fp \<Rightarrow> fp \<Rightarrow> fp" where
  "fadd = add_r round32"

definition fsub :: "fp \<Rightarrow> fp \<Rightarrow> fp" where
  "fsub a b = add_r round32 a (fneg b)"

definition fmul :: "fp \<Rightarrow> fp \<Rightarrow> fp" where
  "fmul = mul_r round32"

definition fquot :: "fp \<Rightarrow> fp \<Rightarrow> fp" where
  "fquot = div_r round32"

definition fsqrt :: "fp \<Rightarrow> fp" where
  "fsqrt = sqrt_r round32"

text \<open>
  A division by a computed quantity: the source does not test the divisor, and IEEE
  arithmetic answers a zero divisor with an infinity or NaN and goes on. Here a division
  by zero is the value \<open>None\<close>, so that a run in which one occurs can be told from the
  others; a run that returns \<open>Some\<close> has divided by zero nowhere.
\<close>

definition fdiv :: "fp \<Rightarrow> fp \<Rightarrow> fp option" where
  "fdiv a b = (if b = Fin 0 then None else Some (fquot a b))"

text \<open>The conversion of an \<^verbatim>\<open>int\<close> to \<^verbatim>\<open>float\<close>, and of a \<^verbatim>\<open>double\<close> to \<^verbatim>\<open>float\<close>.\<close>

definition i2f :: "int \<Rightarrow> fp" where
  "i2f i = round32 (real_of_int i)"

fun d2f :: "fp \<Rightarrow> fp" where
  "d2f (Fin x) = round32 x"
| "d2f a = a"

text \<open>\<^verbatim>\<open>sf::Vector2f\<close> with the operators the source uses.\<close>

datatype Vector2f = Vector2f (vec_x: fp) (vec_y: fp)

definition vadd :: "Vector2f \<Rightarrow> Vector2f \<Rightarrow> Vector2f" where
  "vadd u v = Vector2f (fadd (vec_x u) (vec_x v)) (fadd (vec_y u) (vec_y v))"

definition vsub :: "Vector2f \<Rightarrow> Vector2f \<Rightarrow> Vector2f" where
  "vsub u v = Vector2f (fsub (vec_x u) (vec_x v)) (fsub (vec_y u) (vec_y v))"

definition vscale :: "Vector2f \<Rightarrow> fp \<Rightarrow> Vector2f" where
  "vscale v s = Vector2f (fmul (vec_x v) s) (fmul (vec_y v) s)"

definition vdiv :: "Vector2f \<Rightarrow> fp \<Rightarrow> Vector2f option" where
  "vdiv v s = do { a \<leftarrow> fdiv (vec_x v) s; b \<leftarrow> fdiv (vec_y v) s; Some (Vector2f a b) }"

section \<open>Constants\<close>

text \<open>A literal with the suffix \<^verbatim>\<open>f\<close> is the \<^verbatim>\<open>float\<close> nearest to the decimal number.\<close>

definition WIDTH :: int where "WIDTH = 1200"
definition HEIGHT :: int where "HEIGHT = 800"
definition GRAVITY :: fp where "GRAVITY = round32 (981 / 100)"
definition DAMPING :: fp where "DAMPING = round32 (99 / 100)"
definition ATTRACTION :: fp where "ATTRACTION = round32 50"
definition REPULSION :: fp where "REPULSION = round32 10"
definition MAX_SPEED :: fp where "MAX_SPEED = round32 500"

text \<open>\<^verbatim>\<open>M_PI\<close>, the \<^verbatim>\<open>double\<close> nearest to \<open>\<pi>\<close>.\<close>

definition M_PI :: fp where "M_PI = Fin (884279719003555 / 281474976710656)"

section \<open>Particle\<close>

datatype Color = Color (red: "8 word") (green: "8 word") (blue: "8 word") (alpha: "8 word")

record Particle =
  position :: Vector2f
  velocity :: Vector2f
  radius :: fp
  baseColor :: Color
  mass :: fp

text \<open>
  The constructor stores the radius as given and its square as the mass, and draws the
  three colour channels from \<^verbatim>\<open>rand()\<close>. C++ leaves the order of the three calls open;
  \<open>c1\<close>, \<open>c2\<close>, \<open>c3\<close> are the draws for red, green and blue.
\<close>

definition Particle_new :: "fp \<Rightarrow> fp \<Rightarrow> fp \<Rightarrow> nat \<Rightarrow> nat \<Rightarrow> nat \<Rightarrow> Particle" where
  "Particle_new x y r c1 c2 c3 =
     \<lparr> position = Vector2f x y, velocity = Vector2f (i2f 0) (i2f 0), radius = r,
       baseColor = Color (of_nat (c1 mod 255)) (of_nat (c2 mod 255)) (of_nat (c3 mod 255)) 255,
       mass = fmul r r \<rparr>"

definition limitVelocity :: "Vector2f \<Rightarrow> Vector2f option" where
  "limitVelocity vel =
     (let speed = fsqrt (fadd (fmul (vec_x vel) (vec_x vel)) (fmul (vec_y vel) (vec_y vel))) in
      if flt MAX_SPEED speed then do { u \<leftarrow> vdiv vel speed; Some (vscale u MAX_SPEED) }
      else Some vel)"

text \<open>The two boundary blocks of \<^verbatim>\<open>Particle::update\<close>, one per axis, in the source's order.\<close>

definition bounce_x :: "Particle \<Rightarrow> Particle" where
  "bounce_x p =
     (if flt (fsub (vec_x (position p)) (radius p)) (i2f 0) then
        p\<lparr> position := Vector2f (radius p) (vec_y (position p)),
           velocity := Vector2f (fmul (fneg (vec_x (velocity p))) DAMPING) (vec_y (velocity p)) \<rparr>
      else if flt (i2f WIDTH) (fadd (vec_x (position p)) (radius p)) then
        p\<lparr> position := Vector2f (fsub (i2f WIDTH) (radius p)) (vec_y (position p)),
           velocity := Vector2f (fmul (fneg (vec_x (velocity p))) DAMPING) (vec_y (velocity p)) \<rparr>
      else p)"

definition bounce_y :: "Particle \<Rightarrow> Particle" where
  "bounce_y p =
     (if flt (fsub (vec_y (position p)) (radius p)) (i2f 0) then
        p\<lparr> position := Vector2f (vec_x (position p)) (radius p),
           velocity := Vector2f (vec_x (velocity p)) (fmul (fneg (vec_y (velocity p))) DAMPING) \<rparr>
      else if flt (i2f HEIGHT) (fadd (vec_y (position p)) (radius p)) then
        p\<lparr> position := Vector2f (vec_x (position p)) (fsub (i2f HEIGHT) (radius p)),
           velocity := Vector2f (vec_x (velocity p)) (fmul (fneg (vec_y (velocity p))) DAMPING) \<rparr>
      else p)"

definition Particle_update :: "Particle \<Rightarrow> fp \<Rightarrow> Particle option" where
  "Particle_update p dt =
     (let p1 = p\<lparr> velocity := Vector2f (vec_x (velocity p))
                                         (fadd (vec_y (velocity p)) (fmul GRAVITY dt)) \<rparr> in
      do {
        v \<leftarrow> limitVelocity (velocity p1);
        let p2 = p1\<lparr> velocity := v \<rparr>;
        let p3 = p2\<lparr> position := vadd (position p2) (vscale (velocity p2) dt) \<rparr>;
        Some (bounce_y (bounce_x p3))
      })"

definition applyForce :: "Particle \<Rightarrow> Vector2f \<Rightarrow> fp \<Rightarrow> Particle option" where
  "applyForce p force dt =
     do { k \<leftarrow> fdiv dt (mass p); Some (p\<lparr> velocity := vadd (velocity p) (vscale force k) \<rparr>) }"

section \<open>ParticleSystem\<close>

datatype Vertex = Vertex (vertex_position: Vector2f) (vertex_color: Color)

record ParticleSystem =
  particles :: "Particle list"
  connections :: "Vertex list"

text \<open>
  The body of the inner loop of \<^verbatim>\<open>ParticleSystem::update\<close> for two different elements:
  \<open>p\<close> is \<^verbatim>\<open>particle\<close>, \<open>other\<close> is \<^verbatim>\<open>other\<close>; the result is the new \<^verbatim>\<open>particle\<close>.
\<close>

definition interact :: "Particle \<Rightarrow> Particle \<Rightarrow> fp \<Rightarrow> Particle option" where
  "interact p other dt =
     (let direction = vsub (position other) (position p);
          distance = fsqrt (fadd (fmul (vec_x direction) (vec_x direction))
                                 (fmul (vec_y direction) (vec_y direction)))
      in if flt (i2f 0) distance \<and> flt distance (i2f 100) then
           do {
             force \<leftarrow> vdiv direction distance;
             a \<leftarrow> fdiv ATTRACTION (fmul distance distance);
             r \<leftarrow> fdiv REPULSION distance;
             let strength = fsub a r;
             applyForce p (vscale force strength) dt
           }
         else Some p)"

text \<open>
  The range-based loops run over the elements of the vector by reference; an element is
  its index, and \<^verbatim>\<open>&particle != &other\<close> compares indices. \<open>force_loop dt i js ps\<close> is
  the inner loop for the element at index \<open>i\<close> with the elements \<open>js\<close> still to visit.
\<close>

fun force_loop :: "fp \<Rightarrow> nat \<Rightarrow> nat list \<Rightarrow> Particle list \<Rightarrow> Particle list option" where
  "force_loop dt i [] ps = Some ps"
| "force_loop dt i (j # js) ps =
     (if i \<noteq> j then
        do { p \<leftarrow> interact (ps ! i) (ps ! j) dt; force_loop dt i js (ps[i := p]) }
      else force_loop dt i js ps)"

text \<open>The outer loop: the inner loop for element \<open>i\<close>, then \<^verbatim>\<open>particle.update(dt)\<close> on it.\<close>

fun update_loop :: "fp \<Rightarrow> nat list \<Rightarrow> Particle list \<Rightarrow> Particle list option" where
  "update_loop dt [] ps = Some ps"
| "update_loop dt (i # is) ps =
     do {
       ps1 \<leftarrow> force_loop dt i [0..<length ps] ps;
       p \<leftarrow> Particle_update (ps1 ! i) dt;
       update_loop dt is (ps1[i := p])
     }"

text \<open>
  \<^verbatim>\<open>static_cast<sf::Uint8>\<close> of a \<^verbatim>\<open>float\<close>: the fractional part is discarded. The source
  only converts values between 0 and 255; for another value C++ leaves the result open,
  and it is 0 here.
\<close>

fun to_Uint8 :: "fp \<Rightarrow> 8 word" where
  "to_Uint8 (Fin v) = word_of_int (if 0 \<le> v then \<lfloor>v\<rfloor> else \<lceil>v\<rceil>)"
| "to_Uint8 a = 0"

text \<open>
  The distance of \<^verbatim>\<open>updateConnections\<close>. \<^verbatim>\<open>std::pow\<close> with an \<^verbatim>\<open>int\<close> exponent and
  \<^verbatim>\<open>std::sqrt\<close> of its result are \<^verbatim>\<open>double\<close> functions: the two differences are \<^verbatim>\<open>float\<close>,
  their squares, the sum and the root are \<^verbatim>\<open>double\<close>, and the root is converted to the
  \<^verbatim>\<open>float\<close> \<^verbatim>\<open>distance\<close>.
\<close>

definition connection_distance :: "Vector2f \<Rightarrow> Vector2f \<Rightarrow> fp" where
  "connection_distance a b =
     (let dx = fsub (vec_x a) (vec_x b); dy = fsub (vec_y a) (vec_y b)
      in d2f (sqrt_r round64 (add_r round64 (mul_r round64 dx dx) (mul_r round64 dy dy))))"

fun connections_inner :: "Particle list \<Rightarrow> nat \<Rightarrow> nat list \<Rightarrow> Vertex list \<Rightarrow> Vertex list" where
  "connections_inner ps i [] cs = cs"
| "connections_inner ps i (j # js) cs =
     (let distance = connection_distance (position (ps ! i)) (position (ps ! j))
      in if flt distance (i2f 100) then
           (let alpha = to_Uint8 (fmul (i2f 255) (fsub (i2f 1) (fquot distance (i2f 100))))
            in connections_inner ps i js
                 (cs @ [Vertex (position (ps ! i)) (Color 255 255 255 alpha),
                        Vertex (position (ps ! j)) (Color 255 255 255 alpha)]))
         else connections_inner ps i js cs)"

fun connections_outer :: "Particle list \<Rightarrow> nat list \<Rightarrow> Vertex list \<Rightarrow> Vertex list" where
  "connections_outer ps [] cs = cs"
| "connections_outer ps (i # is) cs =
     connections_outer ps is (connections_inner ps i [i + 1..<length ps] cs)"

definition updateConnections :: "ParticleSystem \<Rightarrow> ParticleSystem" where
  "updateConnections s =
     s\<lparr> connections := connections_outer (particles s) [0..<length (particles s)] [] \<rparr>"

definition ParticleSystem_update :: "ParticleSystem \<Rightarrow> fp \<Rightarrow> ParticleSystem option" where
  "ParticleSystem_update s dt =
     do {
       ps \<leftarrow> update_loop dt [0..<length (particles s)] (particles s);
       Some (updateConnections (s\<lparr> particles := ps \<rparr>))
     }"

subsection \<open>Spawning\<close>

text \<open>
  \<^verbatim>\<open>rand()\<close> is a sequence of draws \<open>rnd\<close> and the number \<open>k\<close> of draws made so far: the
  next call returns \<open>rnd k\<close>. \<^verbatim>\<open>RAND_MAX\<close> is a constant of the C library, and \<^verbatim>\<open>std::cos\<close>
  and \<^verbatim>\<open>std::sin\<close> on a \<^verbatim>\<open>float\<close> are functions of the C library: the three are
  parameters here. The three colour draws of the constructor are made for blue, green
  and red in this order, as a compiler does that evaluates arguments from the right.
\<close>

datatype Vector2i = Vector2i (ivec_x: int) (ivec_y: int)

definition addParticle ::
  "(nat \<Rightarrow> nat) \<Rightarrow> ParticleSystem \<times> nat \<Rightarrow> fp \<Rightarrow> fp \<Rightarrow> fp \<Rightarrow> ParticleSystem \<times> nat" where
  "addParticle rnd sk x y r =
     (case sk of (s, k) \<Rightarrow>
        (s\<lparr> particles := particles s @ [Particle_new x y r (rnd (k + 2)) (rnd (k + 1)) (rnd k)] \<rparr>,
         k + 3))"

text \<open>
  One iteration of the loop of \<^verbatim>\<open>addParticlesAtMouse\<close>. The product with \<^verbatim>\<open>M_PI\<close> is a
  \<^verbatim>\<open>double\<close> product, converted to the \<^verbatim>\<open>float\<close> \<^verbatim>\<open>angle\<close>.
\<close>

definition spawn_one ::
  "nat \<Rightarrow> (fp \<Rightarrow> fp) \<Rightarrow> (fp \<Rightarrow> fp) \<Rightarrow> (nat \<Rightarrow> nat) \<Rightarrow> Vector2i \<Rightarrow> ParticleSystem \<times> nat
     \<Rightarrow> ParticleSystem \<times> nat" where
  "spawn_one RAND_MAX cosf sinf rnd mousePos sk =
     (case sk of (s, k) \<Rightarrow>
       (let angle = d2f (mul_r round64
                      (fmul (fquot (i2f (int (rnd k))) (i2f (int RAND_MAX))) (i2f 2)) M_PI);
            distance = fmul (fquot (i2f (int (rnd (k + 1)))) (i2f (int RAND_MAX))) (i2f 50);
            x = fadd (i2f (ivec_x mousePos)) (fmul (cosf angle) distance);
            y = fadd (i2f (ivec_y mousePos)) (fmul (sinf angle) distance)
        in addParticle rnd (s, k + 3) x y
             (fadd (i2f 3) (fmul (fquot (i2f (int (rnd (k + 2)))) (i2f (int RAND_MAX))) (i2f 5)))))"

primrec spawn_loop ::
  "nat \<Rightarrow> (fp \<Rightarrow> fp) \<Rightarrow> (fp \<Rightarrow> fp) \<Rightarrow> (nat \<Rightarrow> nat) \<Rightarrow> Vector2i \<Rightarrow> nat \<Rightarrow> ParticleSystem \<times> nat
     \<Rightarrow> ParticleSystem \<times> nat" where
  "spawn_loop RAND_MAX cosf sinf rnd mousePos 0 sk = sk"
| "spawn_loop RAND_MAX cosf sinf rnd mousePos (Suc n) sk =
     spawn_loop RAND_MAX cosf sinf rnd mousePos n (spawn_one RAND_MAX cosf sinf rnd mousePos sk)"

text \<open>The loop \<^verbatim>\<open>for (int i = 0; i < count; ++i)\<close> runs \<open>count\<close> times, and not at all for \<open>count \<le> 0\<close>.\<close>

definition addParticlesAtMouse ::
  "nat \<Rightarrow> (fp \<Rightarrow> fp) \<Rightarrow> (fp \<Rightarrow> fp) \<Rightarrow> (nat \<Rightarrow> nat) \<Rightarrow> ParticleSystem \<times> nat \<Rightarrow> Vector2i \<Rightarrow> int
     \<Rightarrow> ParticleSystem \<times> nat" where
  "addParticlesAtMouse RAND_MAX cosf sinf rnd sk mousePos count =
     spawn_loop RAND_MAX cosf sinf rnd mousePos (nat count) sk"

section \<open>The algorithm of the specification\<close>

text \<open>
  The specification describes \<^verbatim>\<open>ParticleSystem::update\<close> in two phases: the pairwise
  forces for every particle first, then \<^verbatim>\<open>update(dt)\<close> on every particle in collection
  order, then the connections. These definitions follow its words.
\<close>

fun spec_force_phase :: "fp \<Rightarrow> nat list \<Rightarrow> Particle list \<Rightarrow> Particle list option" where
  "spec_force_phase dt [] ps = Some ps"
| "spec_force_phase dt (i # is) ps =
     do { ps1 \<leftarrow> force_loop dt i [0..<length ps] ps; spec_force_phase dt is ps1 }"

fun spec_integrate_phase :: "fp \<Rightarrow> nat list \<Rightarrow> Particle list \<Rightarrow> Particle list option" where
  "spec_integrate_phase dt [] ps = Some ps"
| "spec_integrate_phase dt (i # is) ps =
     do { p \<leftarrow> Particle_update (ps ! i) dt; spec_integrate_phase dt is (ps[i := p]) }"

definition spec_two_phase_update :: "ParticleSystem \<Rightarrow> fp \<Rightarrow> ParticleSystem option" where
  "spec_two_phase_update s dt =
     do {
       ps1 \<leftarrow> spec_force_phase dt [0..<length (particles s)] (particles s);
       ps2 \<leftarrow> spec_integrate_phase dt [0..<length (particles s)] ps1;
       Some (updateConnections (s\<lparr> particles := ps2 \<rparr>))
     }"

text \<open>The fields of a particle that are set at construction and not meant to change.\<close>

definition same_identity :: "Particle \<Rightarrow> Particle \<Rightarrow> bool" where
  "same_identity p p' = (radius p' = radius p \<and> mass p' = mass p \<and> baseColor p' = baseColor p)"

section \<open>Notions for the statements\<close>

text \<open>
  The rounding of a real to the grid of \<^verbatim>\<open>float\<close> as a real, without the overflow; the
  reals that are \<^verbatim>\<open>float\<close> values; and the values whose finite part is one of them.
\<close>

definition g32 :: "real \<Rightarrow> real" where
  "g32 = rgrid 24 (- 126) 127"

definition is_f32 :: "real \<Rightarrow> bool" where
  "is_f32 v = (g32 v = v \<and> \<bar>v\<bar> < 2 ^ 128)"

fun valid :: "fp \<Rightarrow> bool" where
  "valid (Fin v) = is_f32 v"
| "valid a = True"

fun finite :: "fp \<Rightarrow> bool" where
  "finite (Fin v) = True"
| "finite a = False"

text \<open>
  The quantities of the force pass as the source computes them: the distance of \<open>other\<close>
  from \<open>p\<close>, the strength at a distance, and the force on \<open>p\<close>.
\<close>

definition pair_distance :: "Particle \<Rightarrow> Particle \<Rightarrow> fp" where
  "pair_distance p other =
     (let dx = fsub (vec_x (position other)) (vec_x (position p));
          dy = fsub (vec_y (position other)) (vec_y (position p))
      in fsqrt (fadd (fmul dx dx) (fmul dy dy)))"

definition strength :: "fp \<Rightarrow> fp" where
  "strength d = fsub (fquot ATTRACTION (fmul d d)) (fquot REPULSION d)"

definition pair_force :: "Particle \<Rightarrow> Particle \<Rightarrow> Vector2f" where
  "pair_force p other =
     (let dx = fsub (vec_x (position other)) (vec_x (position p));
          dy = fsub (vec_y (position other)) (vec_y (position p));
          d = pair_distance p other
      in Vector2f (fmul (fquot dx d) (strength d)) (fmul (fquot dy d) (strength d)))"

section \<open>Rounding\<close>

lemma rne_of_int [simp]: "rne (of_int n) = n"
  by (simp add: rne_def Let_def)

lemma rne_zero [simp]: "rne 0 = 0"
  by (simp add: rne_def Let_def)

lemma rne_err: "\<bar>of_int (rne y) - y\<bar> \<le> 1 / 2"
proof -
  have "of_int \<lfloor>y\<rfloor> \<le> y" and "y < of_int \<lfloor>y\<rfloor> + 1"
    by linarith+
  then show ?thesis
    by (auto simp: rne_def Let_def)
qed

lemma rne_mono:
  assumes "x \<le> y"
  shows "rne x \<le> rne y"
proof (cases "\<lfloor>x\<rfloor> = \<lfloor>y\<rfloor>")
  case True
  then show ?thesis
    using assms by (auto simp: rne_def Let_def)
next
  case False
  then have "\<lfloor>x\<rfloor> + 1 \<le> \<lfloor>y\<rfloor>"
    using assms floor_mono [of x y] by linarith
  moreover have "rne x \<le> \<lfloor>x\<rfloor> + 1" and "\<lfloor>y\<rfloor> \<le> rne y"
    by (auto simp: rne_def Let_def)
  ultimately show ?thesis
    by linarith
qed

lemma rne_minus: "rne (- y) = - rne y"
proof (cases "y = of_int \<lfloor>y\<rfloor>")
  case True
  then have "rne y = \<lfloor>y\<rfloor>" and "rne (- y) = - \<lfloor>y\<rfloor>"
    by (metis rne_of_int of_int_minus)+
  then show ?thesis
    by simp
next
  case False
  then have lt: "of_int \<lfloor>y\<rfloor> < y" and "y < of_int \<lfloor>y\<rfloor> + 1"
    by linarith+
  then have fl: "\<lfloor>- y\<rfloor> = - \<lfloor>y\<rfloor> - 1"
    by linarith
  have ev: "even (- \<lfloor>y\<rfloor> - 1) \<longleftrightarrow> odd \<lfloor>y\<rfloor>"
    by simp
  show ?thesis
    unfolding rne_def Let_def fl ev
    by (auto simp: algebra_simps)
qed

lemma p2_pos [simp]: "0 < (2::real) powi k"
  by simp

lemma p2_Suc: "(2::real) powi (k + 1) = 2 * 2 powi k"
  by (simp add: power_int_add_1')

lemma p2_pred: "(2::real) powi (k - 1) = 2 powi k / 2"
  using p2_Suc [of "k - 1"] by simp

lemma p2_mono: "m \<le> n \<Longrightarrow> (2::real) powi m \<le> 2 powi n"
  by (rule power_int_increasing) simp_all

lemma p2_strict_mono: "m < n \<Longrightarrow> (2::real) powi m < 2 powi n"
  by (rule power_int_strict_increasing) simp_all

lemma p2_add: "(2::real) powi (m + n) = 2 powi m * 2 powi n"
  by (simp add: power_int_add)

lemma p2_diff: "(2::real) powi (m - n) = 2 powi m / 2 powi n"
  by (simp add: power_int_diff)

lemma up_spec:
  assumes "1 \<le> a" and "k \<le> emax + 1"
  shows "k \<le> up emax k a \<and> up emax k a \<le> emax + 1 \<and> 2 powi (up emax k a - k) \<le> a \<and>
         (up emax k a \<le> emax \<longrightarrow> a < 2 powi (up emax k a - k + 1))"
  using assms
proof (induction emax k a rule: up.induct)
  case (1 emax k a)
  show ?case
  proof (cases "a < 2 \<or> emax < k")
    case True
    then have "up emax k a = k"
      by (simp add: up.simps)
    then show ?thesis
      using True "1.prems" by auto
  next
    case False
    then have r: "up emax k a = up emax (k + 1) (a / 2)"
      by (subst up.simps) simp
    have "1 \<le> a / 2" and "k + 1 \<le> emax + 1"
      using False by simp_all
    from "1.IH" [OF False this]
    have ih: "k + 1 \<le> up emax k a" "up emax k a \<le> emax + 1"
      "2 powi (up emax k a - (k + 1)) \<le> a / 2"
      "up emax k a \<le> emax \<longrightarrow> a / 2 < 2 powi (up emax k a - (k + 1) + 1)"
      unfolding r by simp_all
    have e: "up emax k a - (k + 1) = (up emax k a - k) - 1"
      by simp
    have "2 powi (up emax k a - k) \<le> a"
      using ih(3) unfolding e p2_pred by simp
    moreover have "up emax k a \<le> emax \<longrightarrow> a < 2 powi (up emax k a - k + 1)"
      using ih(4) unfolding e by (auto simp: p2_Suc mult.commute)
    ultimately show ?thesis
      using ih(1,2) by simp
  qed
qed

lemma down_spec:
  assumes "0 \<le> a" and "a < 2" and "emin \<le> k"
  shows "emin \<le> down emin k a \<and> down emin k a \<le> k \<and>
         (emin < down emin k a \<longrightarrow> 2 powi (down emin k a - k) \<le> a) \<and>
         a < 2 powi (down emin k a - k + 1)"
  using assms
proof (induction emin k a rule: down.induct)
  case (1 emin k a)
  show ?case
  proof (cases "1 \<le> a \<or> k \<le> emin")
    case True
    then have "down emin k a = k"
      by (simp add: down.simps)
    then show ?thesis
      using True "1.prems" by auto
  next
    case False
    then have r: "down emin k a = down emin (k - 1) (a * 2)"
      by (subst down.simps) simp
    have "0 \<le> a * 2" and "a * 2 < 2" and "emin \<le> k - 1"
      using False "1.prems" by simp_all
    from "1.IH" [OF False this]
    have ih: "emin \<le> down emin k a" "down emin k a \<le> k - 1"
      "emin < down emin k a \<longrightarrow> 2 powi (down emin k a - (k - 1)) \<le> a * 2"
      "a * 2 < 2 powi (down emin k a - (k - 1) + 1)"
      unfolding r by simp_all
    have e: "down emin k a - (k - 1) = (down emin k a - k) + 1"
      by simp
    have "emin < down emin k a \<longrightarrow> 2 powi (down emin k a - k) \<le> a"
      using ih(3) unfolding e p2_Suc by simp
    moreover have "a < 2 powi (down emin k a - k + 1)"
      using ih(4) unfolding e p2_Suc [of "down emin k a - k + 1"] by simp
    ultimately show ?thesis
      using ih(1,2) by simp
  qed
qed

lemma bexp_spec:
  assumes "0 \<le> a" and "emin \<le> 0" and "0 \<le> emax"
  shows "emin \<le> bexp emin emax a" and "bexp emin emax a \<le> emax + 1"
    and "emin < bexp emin emax a \<Longrightarrow> 2 powi (bexp emin emax a) \<le> a"
    and "bexp emin emax a \<le> emax \<Longrightarrow> a < 2 powi (bexp emin emax a + 1)"
proof -
  have "emin \<le> bexp emin emax a \<and> bexp emin emax a \<le> emax + 1 \<and>
        (emin < bexp emin emax a \<longrightarrow> 2 powi (bexp emin emax a) \<le> a) \<and>
        (bexp emin emax a \<le> emax \<longrightarrow> a < 2 powi (bexp emin emax a + 1))"
  proof (cases "1 \<le> a")
    case True
    then show ?thesis
      using up_spec [of a 0 emax] assms by (simp add: bexp_def)
  next
    case False
    then show ?thesis
      using down_spec [of a emin 0] assms by (simp add: bexp_def)
  qed
  then show "emin \<le> bexp emin emax a" and "bexp emin emax a \<le> emax + 1"
    and "emin < bexp emin emax a \<Longrightarrow> 2 powi (bexp emin emax a) \<le> a"
    and "bexp emin emax a \<le> emax \<Longrightarrow> a < 2 powi (bexp emin emax a + 1)"
    by simp_all
qed

lemma bexp_unique:
  assumes "2 powi k \<le> a" and "a < 2 powi (k + 1)" and "emin \<le> k" and "k \<le> emax"
    and "emin \<le> 0" and "0 \<le> emax"
  shows "bexp emin emax a = k"
proof -
  have a: "0 \<le> a"
    using assms(1) p2_pos [of k] by linarith
  note sp = bexp_spec [OF a assms(5,6)]
  let ?r = "bexp emin emax a"
  have "\<not> ?r < k"
  proof
    assume lt: "?r < k"
    then have "a < 2 powi (?r + 1)"
      using sp(4) assms(4) by simp
    also have "\<dots> \<le> 2 powi k"
      using lt by (intro p2_mono) simp
    finally show False
      using assms(1) by simp
  qed
  moreover have "\<not> k < ?r"
  proof
    assume gt: "k < ?r"
    then have "2 powi ?r \<le> a"
      using sp(3) assms(3) by simp
    moreover have "2 powi (k + 1) \<le> (2::real) powi ?r"
      using gt by (intro p2_mono) simp
    ultimately show False
      using assms(2) by simp
  qed
  ultimately show ?thesis
    by simp
qed

lemma bexp_low:
  assumes "0 \<le> a" and "a < 2 powi (emin + 1)" and "emin \<le> 0" and "0 \<le> emax"
  shows "bexp emin emax a = emin"
proof -
  note sp = bexp_spec [OF assms(1,3,4)]
  let ?r = "bexp emin emax a"
  have "\<not> emin < ?r"
  proof
    assume gt: "emin < ?r"
    then have "2 powi ?r \<le> a"
      using sp(3) by simp
    moreover have "2 powi (emin + 1) \<le> (2::real) powi ?r"
      using gt by (intro p2_mono) simp
    ultimately show False
      using assms(2) by simp
  qed
  then show ?thesis
    using sp(1) by simp
qed

lemma bexp_mono:
  assumes "0 \<le> a" and "a \<le> b" and "emin \<le> 0" and "0 \<le> emax"
  shows "bexp emin emax a \<le> bexp emin emax b"
proof (rule ccontr)
  assume "\<not> ?thesis"
  then have lt: "bexp emin emax b < bexp emin emax a"
    by simp
  have b: "0 \<le> b"
    using assms by simp
  note sa = bexp_spec [OF assms(1,3,4)] and sb = bexp_spec [OF b assms(3,4)]
  have "2 powi (bexp emin emax a) \<le> a"
    using sa(3) sb(1) lt by simp
  moreover have "b < 2 powi (bexp emin emax b + 1)"
    using sb(4) sa(2) lt by simp
  moreover have "2 powi (bexp emin emax b + 1) \<le> (2::real) powi (bexp emin emax a)"
    using lt by (intro p2_mono) simp
  ultimately show False
    using assms(2) by simp
qed

lemma p2_of_nat: "(2::real) powi (int n) = of_int (2 ^ n)"
  by simp

lemma rgrid_minus: "rgrid p emin emax (- x) = - rgrid p emin emax x"
  by (simp add: rgrid_def Let_def rne_minus)

lemma rgrid_zero [simp]: "rgrid p emin emax 0 = 0"
  by (simp add: rgrid_def Let_def)

lemma scale_err:
  assumes "0 < q"
  shows "\<bar>of_int (rne (x / q)) * q - x\<bar> \<le> q / 2"
proof -
  have "\<bar>of_int (rne (x / q)) - x / q\<bar> \<le> 1 / 2"
    by (rule rne_err)
  then have "\<bar>of_int (rne (x / q)) - x / q\<bar> * q \<le> 1 / 2 * q"
    using assms by (intro mult_right_mono) simp_all
  moreover have "(of_int (rne (x / q)) - x / q) * q = of_int (rne (x / q)) * q - x"
    using assms by (simp add: left_diff_distrib)
  then have "\<bar>of_int (rne (x / q)) - x / q\<bar> * q = \<bar>of_int (rne (x / q)) * q - x\<bar>"
    using assms by (metis abs_mult abs_of_pos)
  ultimately show ?thesis
    by simp
qed

lemma scale_mono:
  assumes "0 < q" and "x \<le> y"
  shows "of_int (rne (x / q)) * q \<le> of_int (rne (y / q)) * q"
proof -
  have "x / q \<le> y / q"
    using assms by (simp add: divide_right_mono)
  then have "rne (x / q) \<le> rne (y / q)"
    by (rule rne_mono)
  then show ?thesis
    using assms(1) by (intro mult_right_mono) simp_all
qed

lemma scale_int:
  assumes "0 < q"
  shows "of_int (rne (of_int n * q / q)) * q = of_int n * q"
proof -
  have "of_int n * q / q = of_int n"
    using assms by simp
  then show ?thesis
    by (simp only: rne_of_int)
qed

lemma scale_ge:
  assumes "0 < q" and "of_int n * q \<le> x"
  shows "of_int n * q \<le> of_int (rne (x / q)) * q"
proof -
  have "of_int (rne (of_int n * q / q)) * q \<le> of_int (rne (x / q)) * q"
    by (rule scale_mono [OF assms])
  then show ?thesis
    by (simp only: scale_int [OF assms(1)])
qed

lemma scale_le:
  assumes "0 < q" and "x \<le> of_int n * q"
  shows "of_int (rne (x / q)) * q \<le> of_int n * q"
proof -
  have "of_int (rne (x / q)) * q \<le> of_int (rne (of_int n * q / q)) * q"
    by (rule scale_mono [OF assms])
  then show ?thesis
    by (simp only: scale_int [OF assms(1)])
qed

lemma quantum_lower:
  assumes "1 \<le> p"
  shows "of_int (2 ^ (p - 1)) * 2 powi (k - (int p - 1)) = (2::real) powi k"
proof -
  have "int p - 1 = int (p - 1)"
    using assms by simp
  then have "(2::real) powi (int p - 1) = of_int (2 ^ (p - 1))"
    by (simp only: p2_of_nat)
  then have "of_int (2 ^ (p - 1)) * 2 powi (k - (int p - 1)) = (2::real) powi ((int p - 1) + (k - (int p - 1)))"
    by (simp only: p2_add)
  then show ?thesis
    by simp
qed

lemma quantum_upper:
  assumes "1 \<le> p"
  shows "of_int (2 ^ p) * 2 powi (k - (int p - 1)) = (2::real) powi (k + 1)"
proof -
  have "of_int (2 ^ p) * 2 powi (k - (int p - 1)) = (2::real) powi (int p + (k - (int p - 1)))"
    by (simp only: p2_add p2_of_nat)
  then show ?thesis
    by (simp add: algebra_simps)
qed

lemma rgrid_err:
  "\<bar>rgrid p emin emax x - x\<bar> \<le> 2 powi (bexp emin emax \<bar>x\<bar> - (int p - 1)) / 2"
  unfolding rgrid_def Let_def by (rule scale_err) simp

lemma rgrid_nonneg:
  assumes "0 \<le> x"
  shows "0 \<le> rgrid p emin emax x"
proof -
  have "of_int 0 * 2 powi (bexp emin emax \<bar>x\<bar> - (int p - 1)) \<le> rgrid p emin emax x"
    unfolding rgrid_def Let_def using assms by (intro scale_ge) simp_all
  then show ?thesis
    by simp
qed

lemma rgrid_lower:
  assumes "0 \<le> x" and "emin < bexp emin emax x" and "emin \<le> 0" and "0 \<le> emax" and "1 \<le> p"
  shows "2 powi (bexp emin emax x) \<le> rgrid p emin emax x"
proof -
  have ax: "\<bar>x\<bar> = x"
    using assms(1) by simp
  have "2 powi (bexp emin emax x) \<le> x"
    using bexp_spec(3) [OF assms(1,3,4)] assms(2) by simp
  then have "of_int (2 ^ (p - 1)) * 2 powi (bexp emin emax x - (int p - 1)) \<le> x"
    by (simp only: quantum_lower [OF assms(5)])
  then have "of_int (2 ^ (p - 1)) * 2 powi (bexp emin emax x - (int p - 1))
             \<le> rgrid p emin emax x"
    unfolding rgrid_def Let_def ax by (intro scale_ge) simp_all
  then show ?thesis
    by (simp only: quantum_lower [OF assms(5)])
qed

lemma rgrid_upper:
  assumes "0 \<le> x" and "bexp emin emax x \<le> emax" and "emin \<le> 0" and "0 \<le> emax" and "1 \<le> p"
  shows "rgrid p emin emax x \<le> 2 powi (bexp emin emax x + 1)"
proof -
  have ax: "\<bar>x\<bar> = x"
    using assms(1) by simp
  have "x \<le> 2 powi (bexp emin emax x + 1)"
    using bexp_spec(4) [OF assms(1,3,4)] assms(2) by simp
  then have "x \<le> of_int (2 ^ p) * 2 powi (bexp emin emax x - (int p - 1))"
    by (simp only: quantum_upper [OF assms(5)])
  then have "rgrid p emin emax x
             \<le> of_int (2 ^ p) * 2 powi (bexp emin emax x - (int p - 1))"
    unfolding rgrid_def Let_def ax by (intro scale_le) simp_all
  then show ?thesis
    by (simp only: quantum_upper [OF assms(5)])
qed

lemma rgrid_mono_nonneg:
  assumes "0 \<le> x" and "x \<le> y" and "emin \<le> 0" and "0 \<le> emax" and "1 \<le> p"
  shows "rgrid p emin emax x \<le> rgrid p emin emax y"
proof -
  have y: "0 \<le> y"
    using assms by simp
  let ?kx = "bexp emin emax x" and ?ky = "bexp emin emax y"
  have le: "?kx \<le> ?ky"
    by (rule bexp_mono [OF assms(1,2,3,4)])
  show ?thesis
  proof (cases "?kx = ?ky")
    case True
    have "of_int (rne (x / 2 powi (?ky - (int p - 1)))) * (2::real) powi (?ky - (int p - 1))
          \<le> of_int (rne (y / 2 powi (?ky - (int p - 1)))) * 2 powi (?ky - (int p - 1))"
      using assms(2) by (intro scale_mono) simp_all
    then show ?thesis
      using True assms(1) y by (simp add: rgrid_def Let_def)
  next
    case False
    then have lt: "?kx < ?ky"
      using le by simp
    have "?ky \<le> emax + 1"
      by (rule bexp_spec(2) [OF y assms(3,4)])
    then have "rgrid p emin emax x \<le> 2 powi (?kx + 1)"
      using lt by (intro rgrid_upper assms) simp
    also have "\<dots> \<le> 2 powi ?ky"
      using lt by (intro p2_mono) simp
    also have "\<dots> \<le> rgrid p emin emax y"
    proof (rule rgrid_lower [OF y _ assms(3,4,5)])
      show "emin < ?ky"
        using lt bexp_spec(1) [OF assms(1,3,4)] by simp
    qed
    finally show ?thesis .
  qed
qed

lemma rgrid_mono:
  assumes "x \<le> y" and "emin \<le> 0" and "0 \<le> emax" and "1 \<le> p"
  shows "rgrid p emin emax x \<le> rgrid p emin emax y"
proof (cases "0 \<le> x")
  case True
  then show ?thesis
    by (rule rgrid_mono_nonneg [OF _ assms])
next
  case x: False
  show ?thesis
  proof (cases "0 \<le> y")
    case True
    have "rgrid p emin emax (- x) \<ge> 0"
      using x by (intro rgrid_nonneg) simp
    then have "rgrid p emin emax x \<le> 0"
      by (simp add: rgrid_minus)
    also have "\<dots> \<le> rgrid p emin emax y"
      using True by (rule rgrid_nonneg)
    finally show ?thesis .
  next
    case False
    then have "rgrid p emin emax (- y) \<le> rgrid p emin emax (- x)"
      using assms(1) by (intro rgrid_mono_nonneg assms) simp_all
    then show ?thesis
      by (simp add: rgrid_minus)
  qed
qed

lemma rgrid_idem_nonneg:
  assumes "0 \<le> x" and "emin \<le> 0" and "0 \<le> emax" and "1 \<le> p"
  shows "rgrid p emin emax (rgrid p emin emax x) = rgrid p emin emax x"
proof -
  let ?k = "bexp emin emax x"
  let ?v = "rgrid p emin emax x"
  let ?k' = "bexp emin emax ?v"
  have v0: "0 \<le> ?v"
    using assms(1) by (rule rgrid_nonneg)
  have ax: "\<bar>x\<bar> = x" and av: "\<bar>?v\<bar> = ?v"
    using assms(1) v0 by simp_all
  note sx = bexp_spec [OF assms(1,2,3)] and sv = bexp_spec [OF v0 assms(2,3)]
  have ge: "?k \<le> ?k'"
  proof (rule ccontr)
    assume "\<not> ?k \<le> ?k'"
    then have lt: "?k' < ?k"
      by simp
    then have "emin < ?k"
      using sv(1) by simp
    then have "2 powi ?k \<le> ?v"
      by (intro rgrid_lower assms)
    moreover have "?v < 2 powi (?k' + 1)"
      using sv(4) sx(2) lt by simp
    moreover have "2 powi (?k' + 1) \<le> (2::real) powi ?k"
      using lt by (intro p2_mono) simp
    ultimately show False
      by simp
  qed
  define q' where "q' = (2::real) powi (?k' - (int p - 1))"
  have q'0: "0 < q'"
    by (simp add: q'_def)
  have "\<exists>n. ?v = of_int n * q'"
  proof (cases "?k' = ?k")
    case True
    have "?v = of_int (rne (x / 2 powi (?k - (int p - 1)))) * 2 powi (?k - (int p - 1))"
      by (simp add: rgrid_def Let_def ax)
    then show ?thesis
      unfolding q'_def True by blast
  next
    case False
    then have gt: "?k < ?k'"
      using ge by simp
    then have kmax: "?k \<le> emax"
      using sv(2) by simp
    have "?v \<le> 2 powi (?k + 1)"
      by (intro rgrid_upper assms kmax)
    moreover have "2 powi ?k' \<le> ?v"
      using sv(3) sx(1) gt by simp
    moreover have "2 powi (?k + 1) \<le> (2::real) powi ?k'"
      using gt by (intro p2_mono) simp
    ultimately have v: "?v = 2 powi ?k'"
      by simp
    have "?v = of_int (2 ^ (p - 1)) * q'"
      unfolding q'_def using v quantum_lower [OF assms(4), of ?k'] by simp
    then show ?thesis
      by blast
  qed
  then obtain n where n: "?v = of_int n * q'"
    by blast
  have "rgrid p emin emax ?v = of_int (rne (?v / q')) * q'"
    unfolding rgrid_def [of p emin emax ?v] Let_def av q'_def ..
  also have "?v / q' = of_int n"
    using n q'0 by simp
  finally show ?thesis
    using n by simp
qed

lemmas fp_eval = round32_def fround_def rgrid_def bexp_def up.simps down.simps rne_def Let_def

lemma rgrid_idem:
  assumes "emin \<le> 0" and "0 \<le> emax" and "1 \<le> p"
  shows "rgrid p emin emax (rgrid p emin emax x) = rgrid p emin emax x"
proof (cases "0 \<le> x")
  case True
  then show ?thesis
    using assms by (rule rgrid_idem_nonneg)
next
  case False
  then have "0 \<le> - x"
    by simp
  then have "rgrid p emin emax (rgrid p emin emax (- x)) = rgrid p emin emax (- x)"
    using assms by (rule rgrid_idem_nonneg)
  then show ?thesis
    by (simp add: rgrid_minus)
qed

lemma rgrid_multiple:
  "\<exists>n. rgrid p emin emax x = of_int n * 2 powi (bexp emin emax \<bar>x\<bar> - (int p - 1))"
  by (simp add: rgrid_def Let_def)

lemma rgrid_pos_ge:
  assumes "0 < rgrid p emin emax x" and "emin \<le> 0" and "0 \<le> emax"
  shows "2 powi (emin - (int p - 1)) \<le> rgrid p emin emax x"
proof -
  let ?q = "(2::real) powi (bexp emin emax \<bar>x\<bar> - (int p - 1))"
  obtain n where n: "rgrid p emin emax x = of_int n * ?q"
    using rgrid_multiple by blast
  have "0 < of_int n * ?q"
    using assms(1) n by simp
  then have "0 < real_of_int n"
    by (rule zero_less_mult_pos2) simp
  then have "0 < n"
    by simp
  then have "1 \<le> real_of_int n"
    by simp
  then have "1 * ?q \<le> of_int n * ?q"
    by (intro mult_right_mono) simp_all
  then have a: "?q \<le> of_int n * ?q"
    by simp
  have b: "2 powi (emin - (int p - 1)) \<le> ?q"
    using bexp_spec(1) [of "\<bar>x\<bar>" emin emax] assms(2,3) by (intro p2_mono) simp
  show ?thesis
    unfolding n using b a by (rule order_trans)
qed

lemma g32_mono: "x \<le> y \<Longrightarrow> g32 x \<le> g32 y"
  unfolding g32_def by (rule rgrid_mono) simp_all

lemma g32_minus: "g32 (- x) = - g32 x"
  unfolding g32_def by (rule rgrid_minus)

lemma g32_zero [simp]: "g32 0 = 0"
  by (simp add: g32_def)

lemma g32_idem [simp]: "g32 (g32 x) = g32 x"
  unfolding g32_def by (rule rgrid_idem) simp_all

lemma g32_nonneg: "0 \<le> x \<Longrightarrow> 0 \<le> g32 x"
  using g32_mono [of 0 x] by simp

lemma g32_nonpos: "x \<le> 0 \<Longrightarrow> g32 x \<le> 0"
  using g32_mono [of x 0] by simp

lemma g32_abs: "\<bar>g32 x\<bar> = g32 \<bar>x\<bar>"
proof (cases "0 \<le> x")
  case True
  then show ?thesis
    using g32_nonneg [of x] by simp
next
  case False
  then have "g32 x \<le> 0" and "\<bar>x\<bar> = - x"
    using g32_nonpos [of x] by simp_all
  then show ?thesis
    by (simp add: g32_minus)
qed

lemma g32_le: "x \<le> b \<Longrightarrow> g32 b = b \<Longrightarrow> g32 x \<le> b"
  using g32_mono [of x b] by simp

lemma g32_ge: "b \<le> x \<Longrightarrow> g32 b = b \<Longrightarrow> b \<le> g32 x"
  using g32_mono [of b x] by simp

lemma g32_pos_ge: "0 < g32 x \<Longrightarrow> 1 / 2 ^ 149 \<le> g32 x"
proof -
  assume "0 < g32 x"
  then have "2 powi (- 126 - (int 24 - 1)) \<le> g32 x"
    unfolding g32_def by (intro rgrid_pos_ge) simp_all
  then show ?thesis
    by (simp add: power_int_minus field_simps)
qed

lemma round32_g32:
  "round32 x = (if 2 ^ 128 \<le> \<bar>g32 x\<bar> then if 0 < x then PInf else NInf else Fin (g32 x))"
  by (simp add: round32_def fround_def g32_def Let_def)

lemma round32_cases:
  "round32 x = Fin (g32 x) \<and> \<bar>g32 x\<bar> < 2 ^ 128 \<or> round32 x = PInf \<and> 0 < x
     \<or> round32 x = NInf \<and> x \<le> 0"
  by (simp add: round32_g32)

lemma round32_valid: "valid (round32 x)"
  by (simp add: round32_g32 is_f32_def)

lemma round32_id: "is_f32 v \<Longrightarrow> round32 v = Fin v"
  by (simp add: round32_g32 is_f32_def)

lemma round32_Fin:
  assumes "\<bar>x\<bar> \<le> b" and "is_f32 b"
  shows "round32 x = Fin (g32 x)" and "\<bar>g32 x\<bar> \<le> b"
proof -
  have "g32 \<bar>x\<bar> \<le> b"
    using assms by (intro g32_le) (simp_all add: is_f32_def)
  then show b: "\<bar>g32 x\<bar> \<le> b"
    by (simp add: g32_abs)
  have "b < 2 ^ 128"
    using assms(2) unfolding is_f32_def by linarith
  then show "round32 x = Fin (g32 x)"
    using b by (simp add: round32_g32)
qed

lemmas f32_eval = is_f32_def g32_def rgrid_def bexp_def up.simps down.simps rne_def Let_def

lemma is_f32_values:
  "is_f32 0" "is_f32 1" "is_f32 2" "is_f32 3" "is_f32 5" "is_f32 8" "is_f32 50" "is_f32 100"
  "is_f32 255" "is_f32 400" "is_f32 500" "is_f32 800" "is_f32 1200"
  "is_f32 (10286531 / 1048576)" "is_f32 (4152361 / 4194304)"
  by (simp_all add: f32_eval)

lemma const_values:
  "MAX_SPEED = Fin 500" "ATTRACTION = Fin 50" "REPULSION = Fin 10"
  "GRAVITY = Fin (10286531 / 1048576)" "DAMPING = Fin (4152361 / 4194304)"
  "i2f 0 = Fin 0" "i2f 1 = Fin 1" "i2f 2 = Fin 2" "i2f 3 = Fin 3" "i2f 5 = Fin 5"
  "i2f 50 = Fin 50" "i2f 100 = Fin 100" "i2f 255 = Fin 255"
  "i2f WIDTH = Fin 1200" "i2f HEIGHT = Fin 800"
  by (simp_all add: MAX_SPEED_def ATTRACTION_def REPULSION_def GRAVITY_def DAMPING_def
      WIDTH_def HEIGHT_def i2f_def fp_eval)
lemma fop_Fin [simp]:
  "fadd (Fin x) (Fin y) = round32 (x + y)"
  "fsub (Fin x) (Fin y) = round32 (x - y)"
  "fmul (Fin x) (Fin y) = round32 (x * y)"
  "fquot (Fin x) (Fin y) = round32 (x / y)"
  by (simp_all add: fadd_def fsub_def fmul_def fquot_def)

lemma fsqrt_Fin: "0 \<le> x \<Longrightarrow> fsqrt (Fin x) = round32 (sqrt x)"
  by (simp add: fsqrt_def)

lemma sqrt_between:
  assumes "0 \<le> lo" and "lo\<^sup>2 \<le> x" and "0 \<le> hi" and "x \<le> hi\<^sup>2"
  shows "lo \<le> sqrt x" and "sqrt x \<le> hi"
proof -
  show "lo \<le> sqrt x"
    using assms(2) by (rule real_le_rsqrt)
  have "sqrt x \<le> sqrt (hi\<^sup>2)"
    using assms(4) by (rule real_sqrt_le_mono)
  then show "sqrt x \<le> hi"
    using assms(3) by simp
qed

lemma g32_sqrt_eq:
  assumes "0 \<le> lo" and "lo\<^sup>2 \<le> x" and "0 \<le> hi" and "x \<le> hi\<^sup>2"
    and "g32 lo = v" and "g32 hi = v"
  shows "g32 (sqrt x) = v"
proof -
  have "lo \<le> sqrt x" and "sqrt x \<le> hi"
    using assms(1-4) by (rule sqrt_between)+
  then have "g32 lo \<le> g32 (sqrt x)" and "g32 (sqrt x) \<le> g32 hi"
    by (simp_all add: g32_mono)
  then show ?thesis
    using assms(5,6) by simp
qed

lemma fsqrt_eq:
  assumes "0 \<le> lo" and "lo\<^sup>2 \<le> x" and "0 \<le> hi" and "x \<le> hi\<^sup>2"
    and "g32 lo = v" and "g32 hi = v" and "\<bar>v\<bar> < 2 ^ 128"
  shows "fsqrt (Fin x) = Fin v"
proof -
  have "0 \<le> x"
    using assms(2) zero_le_power2 [of lo] by linarith
  moreover have "g32 (sqrt x) = v"
    using assms(1-6) by (rule g32_sqrt_eq)
  ultimately show ?thesis
    using assms(7) by (simp add: fsqrt_Fin round32_g32)
qed

lemma fsqrt_le:
  assumes "0 \<le> x" and "x \<le> b\<^sup>2" and "0 \<le> b" and "is_f32 b"
  shows "\<exists>v. fsqrt (Fin x) = Fin v \<and> 0 \<le> v \<and> v \<le> b"
proof -
  have "sqrt x \<le> sqrt (b\<^sup>2)"
    using assms(2) by (rule real_sqrt_le_mono)
  then have "\<bar>sqrt x\<bar> \<le> b"
    using assms(1,3) by simp
  then have "round32 (sqrt x) = Fin (g32 (sqrt x))" and "\<bar>g32 (sqrt x)\<bar> \<le> b"
    using assms(4) by (rule round32_Fin)+
  moreover have "0 \<le> g32 (sqrt x)"
    using assms(1) by (simp add: g32_nonneg)
  ultimately show ?thesis
    using assms(1) by (simp add: fsqrt_Fin)
qed

lemma fsqrt_ge:
  assumes "b\<^sup>2 \<le> x" and "0 \<le> b" and "is_f32 b"
  shows "(\<exists>v. fsqrt (Fin x) = Fin v \<and> b \<le> v) \<or> fsqrt (Fin x) = PInf"
proof -
  have x: "0 \<le> x"
    using assms(1) zero_le_power2 [of b] by linarith
  have "b \<le> sqrt x"
    using assms(1) by (rule real_le_rsqrt)
  then have "b \<le> g32 (sqrt x)"
    using assms(3) by (intro g32_ge) (simp_all add: is_f32_def)
  moreover have "0 < sqrt x \<or> g32 (sqrt x) = 0"
    using x by (cases "x = 0") simp_all
  ultimately show ?thesis
    using x by (auto simp: fsqrt_Fin round32_g32)
qed

lemma not_flt_500:
  assumes "0 \<le> x" and "x \<le> 250000"
  shows "\<not> flt (Fin 500) (fsqrt (Fin x))"
proof -
  have "\<exists>v. fsqrt (Fin x) = Fin v \<and> 0 \<le> v \<and> v \<le> 500"
    using assms by (intro fsqrt_le) (simp_all add: is_f32_values)
  then show ?thesis
    by auto
qed

lemma not_flt_100:
  assumes "10000 \<le> x"
  shows "\<not> flt (fsqrt (Fin x)) (Fin 100)"
proof -
  have "(\<exists>v. fsqrt (Fin x) = Fin v \<and> 100 \<le> v) \<or> fsqrt (Fin x) = PInf"
    using assms by (intro fsqrt_ge) (simp_all add: is_f32_values)
  then show ?thesis
    by auto
qed

lemma same_identity_refl: "same_identity p p"
  by (simp add: same_identity_def)

lemma same_identity_trans: "same_identity p q \<Longrightarrow> same_identity q r \<Longrightarrow> same_identity p r"
  by (simp add: same_identity_def)

lemma applyForce_frame:
  assumes "applyForce p f dt = Some p'"
  shows "same_identity p p' \<and> position p' = position p"
  using assms by (auto simp: applyForce_def same_identity_def split: bind_splits)

lemma interact_frame:
  assumes "interact p q dt = Some p'"
  shows "same_identity p p' \<and> position p' = position p"
proof -
  have "p' = p \<or> (\<exists>f. applyForce p f dt = Some p')"
    using assms by (auto simp: interact_def Let_def split: if_splits bind_splits)
  then show ?thesis
    using applyForce_frame by (auto simp: same_identity_refl)
qed

lemma limitVelocity_total: "\<exists>v. limitVelocity vel = Some v"
proof -
  have "s \<noteq> Fin 0" if "flt MAX_SPEED s" for s
    using that by (cases s) (auto simp: const_values)
  then show ?thesis
    by (auto simp: limitVelocity_def Let_def vdiv_def fdiv_def)
qed

lemma bounce_x_frame: "same_identity p (bounce_x p)"
  by (simp add: bounce_x_def same_identity_def)

lemma bounce_y_frame: "same_identity p (bounce_y p)"
  by (simp add: bounce_y_def same_identity_def)

lemma Particle_update_total: "\<exists>p'. Particle_update p dt = Some p'"
proof -
  obtain v where "limitVelocity (Vector2f (vec_x (velocity p))
      (fadd (vec_y (velocity p)) (fmul GRAVITY dt))) = Some v"
    using limitVelocity_total by blast
  then show ?thesis
    by (simp add: Particle_update_def Let_def)
qed

lemma Particle_update_frame:
  assumes "Particle_update p dt = Some p'"
  shows "same_identity p p'"
proof -
  obtain v where v: "p' = bounce_y (bounce_x
      (p\<lparr>velocity := v, position := vadd (position p) (vscale v dt)\<rparr>))"
    using assms by (auto simp: Particle_update_def Let_def split: bind_splits)
  define q where "q = p\<lparr>velocity := v, position := vadd (position p) (vscale v dt)\<rparr>"
  have q: "same_identity p q" and p': "p' = bounce_y (bounce_x q)"
    using v by (simp_all add: q_def same_identity_def)
  have "same_identity q (bounce_x q)" and "same_identity (bounce_x q) (bounce_y (bounce_x q))"
    by (rule bounce_x_frame, rule bounce_y_frame)
  then show ?thesis
    using q p' same_identity_trans by blast
qed

lemma force_loop_frame:
  assumes "force_loop dt i js ps = Some ps'"
  shows "length ps' = length ps \<and> (\<forall>k. k \<noteq> i \<longrightarrow> ps' ! k = ps ! k) \<and>
         same_identity (ps ! i) (ps' ! i) \<and> position (ps' ! i) = position (ps ! i)"
  using assms
proof (induction js arbitrary: ps)
  case Nil
  then show ?case
    by (simp add: same_identity_refl)
next
  case (Cons j js)
  show ?case
  proof (cases "i = j")
    case True
    then show ?thesis
      using Cons by simp
  next
    case False
    then obtain p where p: "interact (ps ! i) (ps ! j) dt = Some p"
      and rest: "force_loop dt i js (ps[i := p]) = Some ps'"
      using Cons.prems by (auto split: bind_splits)
    note ih = Cons.IH [OF rest]
    note fr = interact_frame [OF p]
    show ?thesis
    proof (cases "i < length ps")
      case True
      then have "(ps[i := p]) ! i = p"
        by simp
      with ih fr show ?thesis
        by (simp add: same_identity_def)
    next
      case False
      then have "ps[i := p] = ps"
        by (intro list_update_beyond) simp
      with ih show ?thesis
        by simp
    qed
  qed
qed

lemma update_loop_frame:
  assumes "update_loop dt is ps = Some ps'"
  shows "length ps' = length ps \<and> (\<forall>k. k \<notin> set is \<longrightarrow> ps' ! k = ps ! k) \<and>
         (\<forall>k < length ps. same_identity (ps ! k) (ps' ! k))"
  using assms
proof (induction "is" arbitrary: ps)
  case Nil
  then show ?case
    by (simp add: same_identity_refl)
next
  case (Cons i "is")
  obtain ps1 p where ps1: "force_loop dt i [0..<length ps] ps = Some ps1"
    and p: "Particle_update (ps1 ! i) dt = Some p"
    and rest: "update_loop dt is (ps1[i := p]) = Some ps'"
    using Cons.prems by (auto split: bind_splits)
  note f = force_loop_frame [OF ps1]
  note u = Particle_update_frame [OF p]
  note ih = Cons.IH [OF rest]
  have len: "length ps' = length ps"
    using ih f by simp
  have other: "ps' ! k = ps ! k" if "k \<notin> set (i # is)" for k
    using that ih f by simp
  have ident: "same_identity (ps ! k) (ps' ! k)" if k: "k < length ps" for k
  proof -
    have "same_identity (ps ! k) ((ps1[i := p]) ! k)"
    proof (cases "k = i")
      case True
      then show ?thesis
        using k f u by (simp add: same_identity_def)
    next
      case False
      then show ?thesis
        using f by (simp add: same_identity_refl)
    qed
    moreover have "same_identity ((ps1[i := p]) ! k) (ps' ! k)"
      using ih k f by simp
    ultimately show ?thesis
      by (rule same_identity_trans)
  qed
  show ?case
  proof (intro conjI allI impI)
    show "length ps' = length ps"
      by (rule len)
  next
    fix k assume "k \<notin> set (i # is)"
    then show "ps' ! k = ps ! k"
      by (rule other)
  next
    fix k assume "k < length ps"
    then show "same_identity (ps ! k) (ps' ! k)"
      by (rule ident)
  qed
qed

lemma particles_updateConnections: "particles (updateConnections s) = particles s"
  by (simp add: updateConnections_def)

lemma ParticleSystem_update_frame:
  assumes "ParticleSystem_update s dt = Some s'"
  shows "length (particles s') = length (particles s) \<and>
         (\<forall>k < length (particles s). same_identity (particles s ! k) (particles s' ! k))"
proof -
  obtain ps where ps: "update_loop dt [0..<length (particles s)] (particles s) = Some ps"
    and s': "s' = updateConnections (s\<lparr>particles := ps\<rparr>)"
    using assms by (auto simp: ParticleSystem_update_def split: bind_splits)
  have "particles s' = ps"
    using s' by (simp add: particles_updateConnections)
  then show ?thesis
    using update_loop_frame [OF ps] by simp
qed

lemma same_identity_maps:
  assumes "length ps' = length ps" and "\<forall>k < length ps. same_identity (ps ! k) (ps' ! k)"
  shows "map radius ps' = map radius ps \<and> map mass ps' = map mass ps \<and>
         map baseColor ps' = map baseColor ps"
  using assms by (simp add: list_eq_iff_nth_eq same_identity_def)

text \<open>
  Claim C10. \<^verbatim>\<open>Particle::update\<close> and \<^verbatim>\<open>Particle::applyForce\<close> leave the radius, the mass
  and the base colour of the particle as they were, and \<^verbatim>\<open>ParticleSystem::update\<close> keeps
  the number of particles and, index by index, their radius, mass and base colour.
\<close>

theorem frame_invariant:
  "(\<exists>p'. Particle_update p dt = Some p' \<and> same_identity p p') \<and>
   (\<forall>p'. applyForce p f dt = Some p' \<longrightarrow> same_identity p p' \<and> position p' = position p) \<and>
   (\<forall>s'. ParticleSystem_update s dt = Some s' \<longrightarrow>
      length (particles s') = length (particles s) \<and>
      map radius (particles s') = map radius (particles s) \<and>
      map mass (particles s') = map mass (particles s) \<and>
      map baseColor (particles s') = map baseColor (particles s))"
proof (intro conjI allI impI)
  obtain p' where p': "Particle_update p dt = Some p'"
    using Particle_update_total by blast
  then show "\<exists>p'. Particle_update p dt = Some p' \<and> same_identity p p'"
    using Particle_update_frame by blast
next
  fix p' assume "applyForce p f dt = Some p'"
  then show "same_identity p p'" and "position p' = position p"
    using applyForce_frame by blast+
next
  fix s' assume u: "ParticleSystem_update s dt = Some s'"
  note fr = ParticleSystem_update_frame [OF u]
  show "length (particles s') = length (particles s)"
    using fr by simp
  show "map radius (particles s') = map radius (particles s)"
    and "map mass (particles s') = map mass (particles s)"
    and "map baseColor (particles s') = map baseColor (particles s)"
    using same_identity_maps fr by blast+
qed

lemma update_loop_interleaved:
  assumes "update_loop dt [k..<length ps] ps = Some ps'" and "k \<le> i" and "i < length ps"
  shows "\<exists>ps1. force_loop dt i [0..<length ps] (take i ps' @ drop i ps) = Some ps1 \<and>
               Particle_update (ps1 ! i) dt = Some (ps' ! i)"
  using assms
proof (induction "length ps - k" arbitrary: k ps)
  case 0
  then show ?case by simp
next
  case (Suc m)
  have kn: "k < length ps"
    using Suc.prems by simp
  then have "[k..<length ps] = k # [Suc k..<length ps]"
    by (rule upt_conv_Cons)
  then obtain ps1 p where ps1: "force_loop dt k [0..<length ps] ps = Some ps1"
    and p: "Particle_update (ps1 ! k) dt = Some p"
    and rest: "update_loop dt [Suc k..<length ps] (ps1[k := p]) = Some ps'"
    using Suc.prems(1) by (auto split: bind_splits)
  note f = force_loop_frame [OF ps1]
  note r = update_loop_frame [OF rest]
  have len: "length ps' = length ps"
    using r f by simp
  have early: "ps' ! j = (ps1[k := p]) ! j" if "j \<le> k" for j
    using r that by simp
  show ?case
  proof (cases "i = k")
    case True
    have "take k ps' = take k ps"
    proof (rule nth_equalityI)
      show "length (take k ps') = length (take k ps)"
        using len by simp
    next
      fix j assume "j < length (take k ps')"
      then have j: "j < k"
        by simp
      then have "ps' ! j = ps ! j"
        using early [of j] f by simp
      then show "take k ps' ! j = take k ps ! j"
        using j by simp
    qed
    then have "take k ps' @ drop k ps = ps"
      by simp
    moreover have "ps' ! k = p"
      using early [of k] kn f by simp
    ultimately show ?thesis
      using True ps1 p by simp
  next
    case False
    then have ik: "Suc k \<le> i"
      using Suc.prems(2) by simp
    have l2: "length (ps1[k := p]) = length ps"
      using f by simp
    have "drop i (ps1[k := p]) = drop i ps"
    proof (rule nth_equalityI)
      show "length (drop i (ps1[k := p])) = length (drop i ps)"
        using l2 by simp
    next
      fix j assume "j < length (drop i (ps1[k := p]))"
      then have "i + j < length ps"
        using l2 by simp
      moreover have "i + j \<noteq> k"
        using ik by simp
      ultimately show "drop i (ps1[k := p]) ! j = drop i ps ! j"
        using f l2 by simp
    qed
    moreover have "\<exists>q. force_loop dt i [0..<length (ps1[k := p])]
                         (take i ps' @ drop i (ps1[k := p])) = Some q \<and>
                       Particle_update (q ! i) dt = Some (ps' ! i)"
    proof (rule Suc.hyps(1))
      show "m = length (ps1[k := p]) - Suc k"
        using Suc.hyps(2) l2 by simp
      show "update_loop dt [Suc k..<length (ps1[k := p])] (ps1[k := p]) = Some ps'"
        using rest l2 by simp
      show "Suc k \<le> i"
        by (rule ik)
      show "i < length (ps1[k := p])"
        using Suc.prems(3) l2 by simp
    qed
    ultimately show ?thesis
      using l2 by simp
  qed
qed

text \<open>
  Claim C1, amended. \<^verbatim>\<open>ParticleSystem::update\<close> interleaves the two phases: the particle at
  index \<open>i\<close> of the result is \<^verbatim>\<open>Particle::update\<close> of the particle that the force pass for
  \<open>i\<close> leaves, and that force pass runs on the vector in which the particles before \<open>i\<close> are
  already the integrated particles of the result and the particles from \<open>i\<close> on are still
  those of the start. The connections are those of the resulting particles.
\<close>

theorem update_interleaved:
  assumes "ParticleSystem_update s dt = Some s'" and "i < length (particles s)"
  shows "(\<exists>ps1. force_loop dt i [0..<length (particles s)]
                  (take i (particles s') @ drop i (particles s)) = Some ps1 \<and>
                Particle_update (ps1 ! i) dt = Some (particles s' ! i)) \<and>
         connections s' = connections_outer (particles s') [0..<length (particles s')] []"
proof -
  obtain ps where ps: "update_loop dt [0..<length (particles s)] (particles s) = Some ps"
    and s': "s' = updateConnections (s\<lparr>particles := ps\<rparr>)"
    using assms(1) by (auto simp: ParticleSystem_update_def split: bind_splits)
  have eq: "particles s' = ps"
    using s' by (simp add: particles_updateConnections)
  have "connections s' = connections_outer (particles s') [0..<length (particles s')] []"
    using s' by (simp add: updateConnections_def)
  then show ?thesis
    using update_loop_interleaved [OF ps _ assms(2)] eq by simp
qed

lemma valid_ops [simp]:
  "valid (fadd a b)" "valid (fsub a b)" "valid (fmul a b)" "valid (fquot a b)" "valid (fsqrt a)"
  "valid (i2f i)"
proof -
  show "valid (fadd a b)"
    unfolding fadd_def by (cases "(round32, a, b)" rule: add_r.cases) (simp_all add: round32_valid)
  show "valid (fsub a b)"
    unfolding fsub_def
    by (cases "(round32, a, fneg b)" rule: add_r.cases) (simp_all add: round32_valid)
  show "valid (fmul a b)"
    unfolding fmul_def by (cases "(round32, a, b)" rule: mul_r.cases) (simp_all add: round32_valid)
  show "valid (fquot a b)"
    unfolding fquot_def by (cases "(round32, a, b)" rule: div_r.cases) (simp_all add: round32_valid is_f32_values)
  show "valid (fsqrt a)"
    unfolding fsqrt_def by (cases a) (simp_all add: round32_valid)
  show "valid (i2f i)"
    by (simp add: i2f_def round32_valid)
qed

lemma g32_small:
  assumes "\<bar>x\<bar> \<le> 1 / 2 ^ 150"
  shows "g32 x = 0"
proof -
  have z: "g32 (1 / 2 ^ 150) = 0"
    by (simp add: f32_eval)
  have "g32 \<bar>x\<bar> \<le> g32 (1 / 2 ^ 150)"
    using assms by (rule g32_mono)
  moreover have "0 \<le> g32 \<bar>x\<bar>"
    by (simp add: g32_nonneg)
  ultimately have "g32 \<bar>x\<bar> = 0"
    using z by simp
  then show ?thesis
    using g32_abs [of x] by simp
qed

lemma rne_gt_half:
  assumes "1 / 2 < y"
  shows "1 \<le> rne y"
proof -
  have f: "0 \<le> \<lfloor>y\<rfloor>"
    using assms by simp
  have le: "\<lfloor>y\<rfloor> \<le> rne y"
    by (simp add: rne_def Let_def)
  show ?thesis
  proof (cases "\<lfloor>y\<rfloor> = 0")
    case True
    then show ?thesis
      using assms by (simp add: rne_def Let_def)
  next
    case False
    then show ?thesis
      using f le by linarith
  qed
qed

lemma g32_not_small:
  assumes "1 / 2 ^ 150 < x"
  shows "1 / 2 ^ 149 \<le> g32 x"
proof (cases "x < 1 / 2 ^ 125")
  case True
  have x0: "0 \<le> x"
    using assms by (simp add: order_trans [OF _ less_imp_le [OF assms]])
  have "x < 2 powi (- 126 + 1)"
    using True by (simp add: power_int_minus field_simps)
  then have b: "bexp (- 126) 127 x = - 126"
    using x0 by (intro bexp_low) simp_all
  have q: "(2::real) powi (- 126 - (int 24 - 1)) = 1 / 2 ^ 149"
    by (simp add: power_int_minus field_simps)
  have "1 / 2 < x / (1 / 2 ^ 149)"
    using assms by simp
  then have "1 \<le> rne (x / (1 / 2 ^ 149))"
    by (rule rne_gt_half)
  then have "1 \<le> real_of_int (rne (x / (1 / 2 ^ 149)))"
    by simp
  then have "1 * (1 / 2 ^ 149) \<le> real_of_int (rne (x / (1 / 2 ^ 149))) * (1 / 2 ^ 149)"
    by (intro mult_right_mono) simp_all
  moreover have "g32 x = real_of_int (rne (x / (1 / 2 ^ 149))) * (1 / 2 ^ 149)"
    using x0 unfolding g32_def rgrid_def Let_def by (simp only: abs_of_nonneg b q)
  ultimately show ?thesis
    by simp
next
  case False
  then have "1 / 2 ^ 125 \<le> x"
    by simp
  then have "1 / 2 ^ 125 \<le> g32 x"
    by (intro g32_ge) (simp_all add: f32_eval)
  then show ?thesis
    by simp
qed

lemma round32_zero_iff: "round32 x = Fin 0 \<longleftrightarrow> \<bar>x\<bar> \<le> 1 / 2 ^ 150"
proof
  assume "\<bar>x\<bar> \<le> 1 / 2 ^ 150"
  then show "round32 x = Fin 0"
    by (simp add: round32_g32 g32_small)
next
  assume z: "round32 x = Fin 0"
  show "\<bar>x\<bar> \<le> 1 / 2 ^ 150"
  proof (rule ccontr)
    assume "\<not> \<bar>x\<bar> \<le> 1 / 2 ^ 150"
    then have "1 / 2 ^ 149 \<le> g32 \<bar>x\<bar>"
      by (intro g32_not_small) simp
    then have "0 < \<bar>g32 x\<bar>"
      by (simp add: g32_abs)
    then show False
      using z by (simp add: round32_g32 split: if_splits)
  qed
qed

lemma dist_sq_nonzero:
  assumes "flt (Fin 0) (fsqrt a)" and "valid a"
  shows "fmul (fsqrt a) (fsqrt a) \<noteq> Fin 0"
proof (cases a)
  case (Fin x)
  have x0: "0 \<le> x"
    using assms(1) Fin by (simp add: fsqrt_def split: if_splits)
  have gx: "g32 x = x"
    using assms(2) Fin by (simp add: is_f32_def)
  let ?c = "5 / 2 ^ 77 :: real"
  have c: "is_f32 ?c"
    by (simp add: f32_eval)
  show ?thesis
  proof (cases "fsqrt a")
    case (Fin d)
    then have d: "round32 (sqrt x) = Fin d"
      using \<open>a = Fin x\<close> x0 by (simp add: fsqrt_Fin)
    then have dg: "d = g32 (sqrt x)"
      by (simp add: round32_g32 split: if_splits)
    have "0 < d"
      using assms(1) Fin by simp
    then have "x \<noteq> 0"
      using dg by auto
    then have "0 < g32 x"
      using x0 gx by simp
    then have "1 / 2 ^ 149 \<le> x"
      using g32_pos_ge [of x] gx by simp
    then have "?c\<^sup>2 \<le> x"
      by (simp add: power2_eq_square)
    then have "?c \<le> sqrt x"
      by (rule real_le_rsqrt)
    then have "?c \<le> d"
      unfolding dg using c by (intro g32_ge) (simp_all add: is_f32_def)
    then have "?c * ?c \<le> d * d"
      by (intro mult_mono) simp_all
    then have "1 / 2 ^ 150 < d * d"
      by simp
    then have "\<not> \<bar>d * d\<bar> \<le> 1 / 2 ^ 150"
      by simp
    then have "round32 (d * d) \<noteq> Fin 0"
      by (simp only: round32_zero_iff not_False_eq_True)
    then show ?thesis
      using Fin by simp
  qed (use assms(1) in \<open>simp_all add: fmul_def\<close>)
qed (use assms(1) in \<open>simp_all add: fsqrt_def fmul_def\<close>)

lemma interact_eq:
  "interact p q dt =
     (if flt (Fin 0) (pair_distance p q) \<and> flt (pair_distance p q) (Fin 100)
      then applyForce p (pair_force p q) dt else Some p)"
proof -
  let ?dx = "fsub (vec_x (position q)) (vec_x (position p))"
  let ?dy = "fsub (vec_y (position q)) (vec_y (position p))"
  let ?a = "fadd (fmul ?dx ?dx) (fmul ?dy ?dy)"
  have d: "pair_distance p q = fsqrt ?a"
    by (simp add: pair_distance_def Let_def)
  show ?thesis
  proof (cases "flt (Fin 0) (fsqrt ?a) \<and> flt (fsqrt ?a) (Fin 100)")
    case True
    then have "fsqrt ?a \<noteq> Fin 0"
      by auto
    moreover have "fmul (fsqrt ?a) (fsqrt ?a) \<noteq> Fin 0"
      using True by (intro dist_sq_nonzero) simp_all
    ultimately show ?thesis
      using True
      by (simp add: interact_def pair_force_def strength_def d Let_def vsub_def vdiv_def
          fdiv_def vscale_def const_values)
  next
    case False
    then show ?thesis
      by (auto simp: interact_def d Let_def vsub_def const_values)
  qed
qed

lemma interact_None_iff:
  "interact p q dt = None \<longleftrightarrow>
     flt (Fin 0) (pair_distance p q) \<and> flt (pair_distance p q) (Fin 100) \<and> mass p = Fin 0"
  by (auto simp: interact_eq applyForce_def fdiv_def)

lemma applyForce_total: "mass p \<noteq> Fin 0 \<Longrightarrow> \<exists>p'. applyForce p f dt = Some p'"
  by (simp add: applyForce_def fdiv_def)

lemma interact_total:
  assumes "mass p \<noteq> Fin 0"
  shows "\<exists>p'. interact p q dt = Some p'"
  using assms interact_None_iff [of p q dt] by (cases "interact p q dt") auto

lemma force_loop_total:
  assumes "mass (ps ! i) \<noteq> Fin 0"
  shows "\<exists>ps'. force_loop dt i js ps = Some ps'"
  using assms
proof (induction js arbitrary: ps)
  case Nil
  then show ?case by simp
next
  case (Cons j js)
  obtain p where p: "interact (ps ! i) (ps ! j) dt = Some p"
    using interact_total [OF Cons.prems] by blast
  have "mass p = mass (ps ! i)"
    using interact_frame [OF p] by (simp add: same_identity_def)
  then have "mass ((ps[i := p]) ! i) \<noteq> Fin 0"
    using Cons.prems by (cases "i < length ps") (simp_all add: list_update_beyond)
  then show ?case
    using Cons.IH [of "ps[i := p]"] Cons.IH [of ps] Cons.prems p by auto
qed

lemma update_loop_total:
  assumes "\<forall>p \<in> set ps. mass p \<noteq> Fin 0" and "set is \<subseteq> {..<length ps}"
  shows "\<exists>ps'. update_loop dt is ps = Some ps'"
  using assms
proof (induction "is" arbitrary: ps)
  case Nil
  then show ?case by simp
next
  case (Cons i "is")
  then have i: "i < length ps"
    by simp
  then have "mass (ps ! i) \<noteq> Fin 0"
    using Cons.prems(1) by simp
  then obtain ps1 where ps1: "force_loop dt i [0..<length ps] ps = Some ps1"
    using force_loop_total by blast
  note f = force_loop_frame [OF ps1]
  obtain p where p: "Particle_update (ps1 ! i) dt = Some p"
    using Particle_update_total by blast
  note u = Particle_update_frame [OF p]
  have "mass q \<noteq> Fin 0" if "q \<in> set (ps1[i := p])" for q
  proof -
    from that obtain k where "k < length (ps1[i := p])" and q: "q = (ps1[i := p]) ! k"
      by (auto simp: in_set_conv_nth)
    then have k: "k < length ps" "q = (ps1[i := p]) ! k"
      using f by simp_all
    show ?thesis
    proof (cases "k = i")
      case True
      then have "mass q = mass (ps ! i)"
        using k f u by (simp add: same_identity_def)
      then show ?thesis
        using \<open>mass (ps ! i) \<noteq> Fin 0\<close> by simp
    next
      case False
      then have "q = ps ! k"
        using k f by simp
      then show ?thesis
        using Cons.prems(1) k by simp
    qed
  qed
  moreover have "set is \<subseteq> {..<length (ps1[i := p])}"
    using Cons.prems(2) f by simp
  ultimately obtain ps' where "update_loop dt is (ps1[i := p]) = Some ps'"
    using Cons.IH by blast
  then show ?case
    using ps1 p by simp
qed

lemma ParticleSystem_update_total:
  assumes "\<forall>p \<in> set (particles s). mass p \<noteq> Fin 0"
  shows "\<exists>s'. ParticleSystem_update s dt = Some s'"
proof -
  have "set [0..<length (particles s)] \<subseteq> {..<length (particles s)}"
    by auto
  then obtain ps where "update_loop dt [0..<length (particles s)] (particles s) = Some ps"
    using update_loop_total [OF assms] by blast
  then show ?thesis
    by (simp add: ParticleSystem_update_def)
qed

lemma ParticleSystem_update_mass:
  assumes "\<forall>p \<in> set (particles s). mass p \<noteq> Fin 0" and "ParticleSystem_update s dt = Some s'"
  shows "\<forall>p \<in> set (particles s'). mass p \<noteq> Fin 0"
proof
  fix p assume "p \<in> set (particles s')"
  then obtain k where k: "k < length (particles s')" "p = particles s' ! k"
    by (auto simp: in_set_conv_nth)
  note fr = ParticleSystem_update_frame [OF assms(2)]
  have "mass p = mass (particles s ! k)"
    using k fr by (simp add: same_identity_def)
  moreover have "particles s ! k \<in> set (particles s)"
    using k fr by simp
  ultimately show "mass p \<noteq> Fin 0"
    using assms(1) by simp
qed

lemma applyForce_None_iff: "applyForce p f dt = None \<longleftrightarrow> mass p = Fin 0"
  by (simp add: applyForce_def fdiv_def)
theorem frame_invariant_witness:
  "map_option (map radius \<circ> particles)
     (ParticleSystem_update
        \<lparr>particles = [Particle_new (Fin 100) (Fin 100) (Fin 3) 0 0 0,
                      Particle_new (Fin 150) (Fin 100) (Fin 4) 0 0 0],
         connections = []\<rparr> (Fin 1)) = Some [Fin 3, Fin 4]"
proof -
  let ?s = "\<lparr>particles = [Particle_new (Fin 100) (Fin 100) (Fin 3) 0 0 0,
                           Particle_new (Fin 150) (Fin 100) (Fin 4) 0 0 0],
             connections = []\<rparr>"
  have "\<forall>p \<in> set (particles ?s). mass p \<noteq> Fin 0"
    by (simp add: Particle_new_def fp_eval)
  then obtain s' where s': "ParticleSystem_update ?s (Fin 1) = Some s'"
    using ParticleSystem_update_total by blast
  then have "map radius (particles s') = map radius (particles ?s)"
    using frame_invariant [where s = ?s and dt = "Fin 1"] by blast
  then show ?thesis
    using s' by (simp add: Particle_new_def)
qed

theorem update_interleaved_witness:
  "\<exists>s' ps1.
     ParticleSystem_update
       \<lparr>particles = [Particle_new (Fin 100) (Fin 100) (Fin 3) 0 0 0,
                     Particle_new (Fin 150) (Fin 100) (Fin 4) 0 0 0],
        connections = []\<rparr> (Fin 1) = Some s' \<and>
     force_loop (Fin 1) 1 [0..<2]
       (take 1 (particles s') @ [Particle_new (Fin 150) (Fin 100) (Fin 4) 0 0 0]) = Some ps1 \<and>
     Particle_update (ps1 ! 1) (Fin 1) = Some (particles s' ! 1)"
proof -
  let ?s = "\<lparr>particles = [Particle_new (Fin 100) (Fin 100) (Fin 3) 0 0 0,
                           Particle_new (Fin 150) (Fin 100) (Fin 4) 0 0 0],
             connections = []\<rparr>"
  have "\<forall>p \<in> set (particles ?s). mass p \<noteq> Fin 0"
    by (simp add: Particle_new_def fp_eval)
  then obtain s' where s': "ParticleSystem_update ?s (Fin 1) = Some s'"
    using ParticleSystem_update_total by blast
  have "1 < length (particles ?s)"
    by simp
  from update_interleaved [OF s' this] s' show ?thesis
    by (auto simp del: force_loop.simps simp add: numeral_2_eq_2)
qed

lemma fsqrt_quarter: "fsqrt (Fin (1 / 4)) = Fin (1 / 2)"
  by (rule fsqrt_eq [where lo = "1 / 2" and hi = "1 / 2"]) (simp_all add: f32_eval power2_eq_square)

lemma fneg_zero [simp]: "fneg (Fin 0) = Fin 0"
  by simp

text \<open>
  Two particles constructed half a unit apart, and \<open>dt = 1\<close>. The first is pushed to
  \<open>x = 480\<close> and integrated before the second looks at it: the second finds it out of
  range and only falls. In the two-phase algorithm the second is pushed from the first's
  starting position, to \<open>x = 120.5\<close>.
\<close>

theorem update_interleaved_counterexample:
  "map_option (map position \<circ> particles)
     (ParticleSystem_update
        \<lparr>particles = [Particle_new (Fin 300) (Fin 100) (Fin 1) 0 0 0,
                      Particle_new (Fin (601 / 2)) (Fin 100) (Fin 1) 0 0 0],
         connections = []\<rparr> (Fin 1))
     = Some [Vector2f (Fin 480) (Fin (1799127 / 16384)),
             Vector2f (Fin (601 / 2)) (Fin (1799127 / 16384))] \<and>
   map_option (map position \<circ> particles)
     (spec_two_phase_update
        \<lparr>particles = [Particle_new (Fin 300) (Fin 100) (Fin 1) 0 0 0,
                      Particle_new (Fin (601 / 2)) (Fin 100) (Fin 1) 0 0 0],
         connections = []\<rparr> (Fin 1))
     = Some [Vector2f (Fin 480) (Fin (1799127 / 16384)),
             Vector2f (Fin (241 / 2)) (Fin (1799127 / 16384))]"
proof -
  let ?g = "10286531 / 1048576 :: real" and ?y = "1799127 / 16384 :: real"
  let ?p0 = "Particle_new (Fin 300) (Fin 100) (Fin 1) 0 0 0"
  let ?p1 = "Particle_new (Fin (601 / 2)) (Fin 100) (Fin 1) 0 0 0"
  let ?f0 = "?p0\<lparr>velocity := Vector2f (Fin 180) (Fin 0)\<rparr>"
  let ?f1 = "?p1\<lparr>velocity := Vector2f (Fin (- 180)) (Fin 0)\<rparr>"
  let ?u0 = "?p0\<lparr>position := Vector2f (Fin 480) (Fin ?y), velocity := Vector2f (Fin 180) (Fin ?g)\<rparr>"
  let ?u1 = "?p1\<lparr>position := Vector2f (Fin (601 / 2)) (Fin ?y), velocity := Vector2f (Fin 0) (Fin ?g)\<rparr>"
  let ?w1 = "?p1\<lparr>position := Vector2f (Fin (241 / 2)) (Fin ?y), velocity := Vector2f (Fin (- 180)) (Fin ?g)\<rparr>"
  have idx: "[0..<2] = [0, Suc 0]"
    by (simp add: upt_rec)
  have i0: "interact ?p0 ?p1 (Fin 1) = Some ?f0"
    by (simp add: interact_def Particle_new_def vsub_def fsqrt_quarter vdiv_def fdiv_def
        const_values applyForce_def vscale_def vadd_def fp_eval)
  have u0: "Particle_update ?f0 (Fin 1) = Some ?u0"
    by (simp add: Particle_update_def limitVelocity_def bounce_x_def bounce_y_def
        Particle_new_def const_values vadd_def vscale_def not_flt_500 fp_eval)
  have i1: "interact ?p1 ?u0 (Fin 1) = Some ?p1"
    by (simp add: interact_def Particle_new_def vsub_def not_flt_100 const_values fp_eval)
  have u1: "Particle_update ?p1 (Fin 1) = Some ?u1"
    by (simp add: Particle_update_def limitVelocity_def bounce_x_def bounce_y_def
        Particle_new_def const_values vadd_def vscale_def not_flt_500 fp_eval)
  have j1: "interact ?p1 ?f0 (Fin 1) = Some ?f1"
    by (simp add: interact_def Particle_new_def vsub_def fsqrt_quarter vdiv_def fdiv_def
        const_values applyForce_def vscale_def vadd_def fp_eval)
  have w1: "Particle_update ?f1 (Fin 1) = Some ?w1"
    by (simp add: Particle_update_def limitVelocity_def bounce_x_def bounce_y_def
        Particle_new_def const_values vadd_def vscale_def not_flt_500 fp_eval)
  have a: "update_loop (Fin 1) [0, Suc 0] [?p0, ?p1] = Some [?u0, ?u1]"
    using i0 u0 i1 u1 by (simp add: idx)
  have b: "spec_force_phase (Fin 1) [0, Suc 0] [?p0, ?p1] = Some [?f0, ?f1]"
    using i0 j1 by (simp add: idx)
  have c: "spec_integrate_phase (Fin 1) [0, Suc 0] [?f0, ?f1] = Some [?u0, ?w1]"
    using u0 w1 by simp
  show ?thesis
    by (simp del: update_loop.simps spec_force_phase.simps spec_integrate_phase.simps
        add: ParticleSystem_update_def spec_two_phase_update_def idx a b c
        particles_updateConnections)
qed

lemma mass_zero_Fin:
  "mass (Particle_new x y (Fin v) c1 c2 c3) = Fin 0 \<longleftrightarrow> \<bar>v\<bar> \<le> 1 / 2 ^ 75"
proof -
  have "\<bar>v\<bar> \<le> \<bar>1 / 2 ^ 75\<bar> \<longleftrightarrow> v\<^sup>2 \<le> (1 / 2 ^ 75)\<^sup>2"
    by (rule abs_le_square_iff)
  then have "\<bar>v * v\<bar> \<le> 1 / 2 ^ 150 \<longleftrightarrow> \<bar>v\<bar> \<le> 1 / 2 ^ 75"
    by (simp add: power2_eq_square abs_mult)
  then show ?thesis
    by (simp add: Particle_new_def round32_zero_iff)
qed

lemma mass_zero_iff:
  "mass (Particle_new x y r c1 c2 c3) = Fin 0 \<longleftrightarrow> (\<exists>v. r = Fin v \<and> \<bar>v\<bar> \<le> 1 / 2 ^ 75)"
  by (cases r) (simp_all add: mass_zero_Fin, simp_all add: Particle_new_def fmul_def)

lemma fsqrt_9: "fsqrt (Fin 9) = Fin 3"
  by (rule fsqrt_eq [where lo = 3 and hi = 3]) (simp_all add: f32_eval)

text \<open>
  Claim C9, amended. The division by the speed is made only when the speed exceeds
  \<open>MAX_SPEED\<close>, and the divisions by the distance and by its square only when the computed
  distance is positive, and then neither is zero: the one division that can be by zero
  is the division by the mass, when the computed distance is strictly between 0 and 100.
  The constructor stores any radius; the mass it sets is the rounded square, which is
  zero exactly for a finite radius of magnitude at most \<open>2\<^sup>-\<^sup>7\<^sup>5\<close> (the square of a smaller
  non-zero radius underflows). When no particle has mass zero, \<^verbatim>\<open>ParticleSystem::update\<close>
  divides by zero nowhere, and no particle has mass zero after it.
\<close>

theorem division_safety:
  "limitVelocity v \<noteq> None \<and>
   (interact p q dt = None \<longleftrightarrow>
      flt (Fin 0) (pair_distance p q) \<and> flt (pair_distance p q) (Fin 100) \<and> mass p = Fin 0) \<and>
   (mass (Particle_new x y r c1 c2 c3) = Fin 0 \<longleftrightarrow> (\<exists>a. r = Fin a \<and> \<bar>a\<bar> \<le> 1 / 2 ^ 75)) \<and>
   ((\<forall>p \<in> set (particles s). mass p \<noteq> Fin 0) \<longrightarrow>
      (\<exists>s'. ParticleSystem_update s dt = Some s' \<and> (\<forall>p \<in> set (particles s'). mass p \<noteq> Fin 0)))"
proof (intro conjI impI)
  show "limitVelocity v \<noteq> None"
    using limitVelocity_total [of v] by auto
next
  show "interact p q dt = None \<longleftrightarrow>
      flt (Fin 0) (pair_distance p q) \<and> flt (pair_distance p q) (Fin 100) \<and> mass p = Fin 0"
    by (rule interact_None_iff)
next
  show "mass (Particle_new x y r c1 c2 c3) = Fin 0 \<longleftrightarrow> (\<exists>a. r = Fin a \<and> \<bar>a\<bar> \<le> 1 / 2 ^ 75)"
    by (rule mass_zero_iff)
next
  assume m: "\<forall>p \<in> set (particles s). mass p \<noteq> Fin 0"
  then obtain s' where "ParticleSystem_update s dt = Some s'"
    using ParticleSystem_update_total by blast
  then show "\<exists>s'. ParticleSystem_update s dt = Some s' \<and> (\<forall>p \<in> set (particles s'). mass p \<noteq> Fin 0)"
    using ParticleSystem_update_mass [OF m] by blast
qed

theorem division_safety_witness:
  "ParticleSystem_update
     \<lparr>particles = [Particle_new (Fin 100) (Fin 100) (Fin 3) 0 0 0,
                   Particle_new (Fin 150) (Fin 100) (Fin 4) 0 0 0],
      connections = []\<rparr> (Fin 1) \<noteq> None"
proof -
  let ?s = "\<lparr>particles = [Particle_new (Fin 100) (Fin 100) (Fin 3) 0 0 0,
                           Particle_new (Fin 150) (Fin 100) (Fin 4) 0 0 0],
             connections = []\<rparr>"
  have "\<forall>p \<in> set (particles ?s). mass p \<noteq> Fin 0"
    by (simp add: Particle_new_def fp_eval)
  then show ?thesis
    using division_safety [where s = ?s and dt = "Fin 1" and v = "Vector2f (Fin 0) (Fin 0)"
        and p = "Particle_new (Fin 0) (Fin 0) (Fin 1) 0 0 0"
        and q = "Particle_new (Fin 0) (Fin 0) (Fin 1) 0 0 0"
        and x = "Fin 0" and y = "Fin 0" and r = "Fin 1" and ?c1.0 = 0 and ?c2.0 = 0 and ?c3.0 = 0]
    by blast
qed

text \<open>
  A particle constructed with radius 0 has mass 0, and the force pass divides by it. So
  has a particle constructed with the radius \<open>2\<^sup>-\<^sup>8\<^sup>0\<close>.
\<close>

theorem division_safety_counterexample:
  "mass (Particle_new (Fin 0) (Fin 0) (Fin 0) 0 0 0) = Fin 0 \<and>
   mass (Particle_new (Fin 0) (Fin 0) (Fin (1 / 2 ^ 80)) 0 0 0) = Fin 0 \<and>
   ParticleSystem_update
     \<lparr>particles = [Particle_new (Fin 0) (Fin 0) (Fin 0) 0 0 0,
                   Particle_new (Fin 3) (Fin 0) (Fin 1) 0 0 0], connections = []\<rparr> (Fin 1)
     = None"
proof -
  let ?p = "Particle_new (Fin 0) (Fin 0) (Fin 0) 0 0 0"
  let ?q = "Particle_new (Fin 3) (Fin 0) (Fin 1) 0 0 0"
  have m: "mass ?p = Fin 0" "mass (Particle_new (Fin 0) (Fin 0) (Fin (1 / 2 ^ 80)) 0 0 0) = Fin 0"
    unfolding mass_zero_Fin by simp_all
  have "pair_distance ?p ?q = Fin 3"
    by (simp add: pair_distance_def Particle_new_def fsqrt_9 fp_eval)
  then have "interact ?p ?q (Fin 1) = None"
    using m(1) by (simp add: interact_None_iff)
  moreover have "[0..<length [?p, ?q]] = [0, 1]"
    by (simp add: upt_rec)
  ultimately show ?thesis
    using m by (simp add: ParticleSystem_update_def)
qed

end
